theory Spec2Isabelle
  imports Complex_Main "HOL-Library.Log_Nat" "HOL-Library.Word"
begin

section \<open>JavaScript numbers\<close>

text \<open>
  Every \<^verbatim>\<open>number\<close> of \<^verbatim>\<open>src/hooks/useFaceDetection.ts\<close> is an IEEE-754 binary64 value.
  A finite double is the real number it denotes; the two infinities and NaN are values of
  their own. Negative zero is identified with zero: it differs from zero only as a
  divisor, and every divisor of this program (the scale, the box height, the native
  height) is computed from non-negative operands.
\<close>

datatype number = Fin real | PInf | NInf | NaN

text \<open>The integer part of the binary logarithm of a positive real.\<close>

definition flog2 :: "real \<Rightarrow> int" where
  "flog2 a = (if 1 \<le> a then bitlen \<lfloor>a\<rfloor> - 1 else - bitlen (\<lceil>1 / a\<rceil> - 1))"

text \<open>Rounding to the nearest integer, a tie going to the even neighbour.\<close>

definition round_even :: "real \<Rightarrow> int" where
  "round_even a =
     (let f = \<lfloor>a\<rfloor>; d = a - of_int f
      in if d < 1 / 2 then f else if 1 / 2 < d then f + 1 else if even f then f else f + 1)"

text \<open>
  The exponent of the unit in the last place: 53 significant bits, and the fixed spacing
  \<open>2 powi -1074\<close> of the subnormal range.
\<close>

definition ulp_exp :: "real \<Rightarrow> int" where
  "ulp_exp a = max (flog2 \<bar>a\<bar> - 52) (- 1074)"

definition rnd :: "real \<Rightarrow> real" where
  "rnd a = (if a = 0 then 0
            else sgn a * of_int (round_even (\<bar>a\<bar> / 2 powi ulp_exp a)) * 2 powi ulp_exp a)"

text \<open>Round to nearest, ties to even, overflowing to an infinity.\<close>

definition fl :: "real \<Rightarrow> number" where
  "fl a = (let v = rnd a
           in if 2 ^ 1024 \<le> v then PInf else if v \<le> - (2 ^ 1024) then NInf else Fin v)"

text \<open>A decimal literal denotes the double nearest to it.\<close>

definition lit :: "real \<Rightarrow> number" where
  "lit a = fl a"

text \<open>An integer-valued number (an index, a coordinate, a byte, a dimension).\<close>

definition num :: "nat \<Rightarrow> number" where
  "num n = Fin (of_nat n)"

fun fneg :: "number \<Rightarrow> number" where
  "fneg (Fin a) = Fin (- a)"
| "fneg PInf = NInf"
| "fneg NInf = PInf"
| "fneg NaN = NaN"

fun fadd :: "number \<Rightarrow> number \<Rightarrow> number" where
  "fadd (Fin a) (Fin b) = fl (a + b)"
| "fadd NaN _ = NaN"
| "fadd _ NaN = NaN"
| "fadd PInf NInf = NaN"
| "fadd NInf PInf = NaN"
| "fadd PInf _ = PInf"
| "fadd _ PInf = PInf"
| "fadd NInf _ = NInf"
| "fadd _ NInf = NInf"

definition fsub :: "number \<Rightarrow> number \<Rightarrow> number" where
  "fsub a b = fadd a (fneg b)"

text \<open>The sign of an infinite product or quotient.\<close>

definition signed_inf :: "bool \<Rightarrow> number" where
  "signed_inf positive = (if positive then PInf else NInf)"

fun fmul :: "number \<Rightarrow> number \<Rightarrow> number" where
  "fmul (Fin a) (Fin b) = fl (a * b)"
| "fmul NaN _ = NaN"
| "fmul _ NaN = NaN"
| "fmul (Fin a) PInf = (if a = 0 then NaN else signed_inf (0 < a))"
| "fmul (Fin a) NInf = (if a = 0 then NaN else signed_inf (a < 0))"
| "fmul PInf (Fin b) = (if b = 0 then NaN else signed_inf (0 < b))"
| "fmul NInf (Fin b) = (if b = 0 then NaN else signed_inf (b < 0))"
| "fmul PInf PInf = PInf"
| "fmul PInf NInf = NInf"
| "fmul NInf PInf = NInf"
| "fmul NInf NInf = PInf"

fun fdiv :: "number \<Rightarrow> number \<Rightarrow> number" where
  "fdiv (Fin a) (Fin b) =
     (if b = 0 then (if a = 0 then NaN else signed_inf (0 < a)) else fl (a / b))"
| "fdiv NaN _ = NaN"
| "fdiv _ NaN = NaN"
| "fdiv (Fin a) PInf = Fin 0"
| "fdiv (Fin a) NInf = Fin 0"
| "fdiv PInf (Fin b) = signed_inf (0 \<le> b)"
| "fdiv NInf (Fin b) = signed_inf (b < 0)"
| "fdiv PInf PInf = NaN"
| "fdiv PInf NInf = NaN"
| "fdiv NInf PInf = NaN"
| "fdiv NInf NInf = NaN"

text \<open>\<^verbatim>\<open><\<close> and \<^verbatim>\<open>>\<close>: every comparison with NaN is false.\<close>

fun flt :: "number \<Rightarrow> number \<Rightarrow> bool" where
  "flt (Fin a) (Fin b) = (a < b)"
| "flt NaN _ = False"
| "flt _ NaN = False"
| "flt PInf _ = False"
| "flt _ NInf = False"
| "flt _ PInf = True"
| "flt NInf _ = True"

definition fgt :: "number \<Rightarrow> number \<Rightarrow> bool" where
  "fgt a b = flt b a"

text \<open>\<^verbatim>\<open><=\<close> and \<^verbatim>\<open>>=\<close>, used to state properties only.\<close>

definition fle :: "number \<Rightarrow> number \<Rightarrow> bool" where
  "fle a b = (a \<noteq> NaN \<and> (flt a b \<or> a = b))"

definition fge :: "number \<Rightarrow> number \<Rightarrow> bool" where
  "fge a b = fle b a"

fun Math_min :: "number \<Rightarrow> number \<Rightarrow> number" where
  "Math_min NaN _ = NaN"
| "Math_min _ NaN = NaN"
| "Math_min a b = (if flt b a then b else a)"

text \<open>
  Storing a number in an \<^verbatim>\<open>unsigned long\<close> attribute (\<^verbatim>\<open>canvas.width\<close>,
  \<^verbatim>\<open>canvas.height\<close>): NaN and the infinities become 0, a finite value is truncated
  towards zero and taken modulo \<open>2 ^ 32\<close>.
\<close>

fun to_uint32 :: "number \<Rightarrow> nat" where
  "to_uint32 (Fin a) = nat ((if 0 \<le> a then \<lfloor>a\<rfloor> else \<lceil>a\<rceil>) mod 2 ^ 32)"
| "to_uint32 _ = 0"

section \<open>The data of the hook\<close>

record FaceBox =
  x :: number
  y :: number
  width :: number
  height :: number

record FaceDetectionResult =
  face :: "FaceBox option"
  eyeLineY :: "number option"
  chinY :: "number option"

text \<open>What the hook reads of an \<^verbatim>\<open>HTMLImageElement\<close>: two \<^verbatim>\<open>unsigned long\<close> attributes.\<close>

record image =
  naturalWidth :: "32 word"
  naturalHeight :: "32 word"

text \<open>A fault raised by the platform (a rejected promise, a thrown exception).\<close>

datatype fault = DetectorRejected | RasterUnreadable

text \<open>
  The platform as it answers for one image. \<open>faceDetector\<close> is \<open>None\<close> when
  \<^verbatim>\<open>'FaceDetector' in window\<close> is false, and else the outcome of constructing the
  detector and awaiting \<^verbatim>\<open>detect\<close>: a fault or the bounding boxes of the faces.
  \<open>context2d\<close> tells whether \<^verbatim>\<open>getContext('2d')\<close> is non-null. \<open>getImageData w h\<close> is the
  outcome of drawing the image into a canvas of \<open>w\<close> by \<open>h\<close> pixels and reading it back: a
  fault or the RGBA bytes of a \<^verbatim>\<open>Uint8ClampedArray\<close>.
\<close>

record platform =
  faceDetector :: "(fault + FaceBox list) option"
  context2d :: bool
  getImageData :: "nat \<Rightarrow> nat \<Rightarrow> fault + 8 word list"

text \<open>
  The two \<^verbatim>\<open>useState\<close> cells of the hook, and what \<^verbatim>\<open>console.error\<close> has been given.
\<close>

record hook_state =
  isDetecting :: bool
  detectionResult :: "FaceDetectionResult option"
  console :: "fault list"

section \<open>The pixel classifier\<close>

text \<open>\<^verbatim>\<open>isSkinTone\<close>, lines 160 to 172.\<close>

definition isSkinTone :: "number \<Rightarrow> number \<Rightarrow> number \<Rightarrow> bool" where
  "isSkinTone r g b =
     (let luma = fadd (fadd (fmul (lit (299 / 1000)) r) (fmul (lit (587 / 1000)) g))
                   (fmul (lit (114 / 1000)) b);
          cb = fadd (fsub (fsub (lit 128) (fmul (lit (169 / 1000)) r))
                  (fmul (lit (331 / 1000)) g)) (fmul (lit (5 / 10)) b);
          cr = fsub (fsub (fadd (lit 128) (fmul (lit (5 / 10)) r))
                  (fmul (lit (419 / 1000)) g)) (fmul (lit (81 / 1000)) b)
      in fgt luma (lit 80) \<and> fgt cb (lit 77) \<and> flt cb (lit 127)
         \<and> fgt cr (lit 133) \<and> flt cr (lit 173))"

section \<open>The canvas fallback\<close>

text \<open>
  \<^verbatim>\<open>data[i]\<close> on the byte array: past its end the read is \<^verbatim>\<open>undefined\<close>, which
  arithmetic turns into NaN.
\<close>

definition sample :: "8 word list \<Rightarrow> nat \<Rightarrow> number" where
  "sample data i = (if i < length data then num (unat (data ! i)) else NaN)"

text \<open>The two nested scanning loops, lines 105 to 119: rows outside, columns inside.\<close>

definition skinPixels :: "nat \<Rightarrow> nat \<Rightarrow> 8 word list \<Rightarrow> (nat \<times> nat) list" where
  "skinPixels cw ch data =
     concat (map (\<lambda>row. concat (map (\<lambda>col.
         (let i = (row * cw + col) * 4
          in if isSkinTone (sample data i) (sample data (i + 1)) (sample data (i + 2))
             then [(col, row)] else []))
       [0..<cw])) [0..<ch])"

text \<open>
  The loop of lines 127 to 134 over the collected pixels; the state is
  \<open>(minX, maxX, minY, maxY)\<close>, started at \<open>(canvas.width, 0, canvas.height, 0)\<close>.
\<close>

fun boundsStep :: "nat \<times> nat \<Rightarrow> nat \<times> nat \<times> nat \<times> nat \<Rightarrow> nat \<times> nat \<times> nat \<times> nat" where
  "boundsStep (px, py) (minX, maxX, minY, maxY) =
     (min minX px, max maxX px, min minY py, max maxY py)"

definition bounds :: "nat \<Rightarrow> nat \<Rightarrow> (nat \<times> nat) list \<Rightarrow> nat \<times> nat \<times> nat \<times> nat" where
  "bounds cw ch pixels = fold boundsStep pixels (cw, 0, ch, 0)"

text \<open>Lines 136 to 146: the head portion and the scaling back to image coordinates.\<close>

definition boxOfBounds :: "number \<Rightarrow> nat \<times> nat \<times> nat \<times> nat \<Rightarrow> FaceBox" where
  "boxOfBounds scale bs =
     (case bs of (minX, maxX, minY, maxY) \<Rightarrow>
        (let fullHeight = fsub (num maxY) (num minY);
             headHeight = fmul fullHeight (lit (6 / 10))
         in \<lparr> x = fdiv (num minX) scale,
              y = fdiv (num minY) scale,
              width = fdiv (fsub (num maxX) (num minX)) scale,
              height = fdiv headHeight scale \<rparr>))"

definition candidateBox :: "nat \<Rightarrow> nat \<Rightarrow> number \<Rightarrow> (nat \<times> nat) list \<Rightarrow> FaceBox" where
  "candidateBox cw ch scale pixels = boxOfBounds scale (bounds cw ch pixels)"

text \<open>Lines 148 to 156: the check of the proportions.\<close>

definition validateBox :: "FaceBox \<Rightarrow> FaceBox option" where
  "validateBox faceBox =
     (let aspectRatio = fdiv (width faceBox) (height faceBox)
      in if flt aspectRatio (lit (5 / 10)) \<or> fgt aspectRatio (lit (15 / 10)) then None
         else Some faceBox)"

text \<open>Lines 95 to 98.\<close>

definition scaleOf :: "image \<Rightarrow> number" where
  "scaleOf img =
     Math_min (fdiv (num 300) (num (unat (naturalWidth img))))
              (fdiv (num 300) (num (unat (naturalHeight img))))"

definition canvasWidth :: "image \<Rightarrow> nat" where
  "canvasWidth img = to_uint32 (fmul (num (unat (naturalWidth img))) (scaleOf img))"

definition canvasHeight :: "image \<Rightarrow> nat" where
  "canvasHeight img = to_uint32 (fmul (num (unat (naturalHeight img))) (scaleOf img))"

text \<open>
  \<^verbatim>\<open>detectFaceWithCanvas\<close>, lines 85 to 158. A fault of the read-back rejects the promise
  (\<open>Inl\<close>); \<^verbatim>\<open>resolve(null)\<close> is \<open>Inr None\<close>.
\<close>

definition detectFaceWithCanvas :: "platform \<Rightarrow> image \<Rightarrow> fault + FaceBox option" where
  "detectFaceWithCanvas pf img =
     (if \<not> context2d pf then Inr None
      else case getImageData pf (canvasWidth img) (canvasHeight img) of
             Inl e \<Rightarrow> Inl e
           | Inr data \<Rightarrow>
               (let pixels = skinPixels (canvasWidth img) (canvasHeight img) data
                in if length pixels < 100 then Inr None
                   else Inr (validateBox
                          (candidateBox (canvasWidth img) (canvasHeight img) (scaleOf img) pixels))))"

section \<open>The orchestrator\<close>

text \<open>Lines 55 and 57.\<close>

definition eyeLineOf :: "FaceBox \<Rightarrow> number \<Rightarrow> number" where
  "eyeLineOf faceBox imgHeight =
     fmul (fdiv (fadd (y faceBox) (fmul (height faceBox) (lit (35 / 100)))) imgHeight) (lit 100)"

definition chinOf :: "FaceBox \<Rightarrow> number \<Rightarrow> number" where
  "chinOf faceBox imgHeight =
     fmul (fdiv (fadd (y faceBox) (height faceBox)) imgHeight) (lit 100)"

text \<open>The body of the \<^verbatim>\<open>try\<close> block up to line 48: which box, if any, or a fault.\<close>

definition findFaceBox :: "platform \<Rightarrow> image \<Rightarrow> fault + FaceBox option" where
  "findFaceBox pf img =
     (case faceDetector pf of
        Some detected \<Rightarrow>
          (case detected of
             Inl e \<Rightarrow> Inl e
           | Inr faces \<Rightarrow> Inr (case faces of [] \<Rightarrow> None | f # _ \<Rightarrow> Some f))
      | None \<Rightarrow> detectFaceWithCanvas pf img)"

text \<open>
  \<^verbatim>\<open>detectFace\<close>, lines 23 to 79. The first component is what the returned promise
  settles with: \<open>Inl\<close> a rejection, \<open>Inr\<close> the value it resolves to.
\<close>

definition detectFace ::
  "platform \<Rightarrow> image \<Rightarrow> hook_state \<Rightarrow> (fault + FaceDetectionResult option) \<times> hook_state" where
  "detectFace pf img st =
     (let st1 = st\<lparr> isDetecting := True \<rparr>
      in case findFaceBox pf img of
           Inr (Some faceBox) \<Rightarrow>
             (let imgHeight = num (unat (naturalHeight img));
                  result = \<lparr> face = Some faceBox,
                             eyeLineY = Some (eyeLineOf faceBox imgHeight),
                             chinY = Some (chinOf faceBox imgHeight) \<rparr>
              in (Inr (Some result),
                  st1\<lparr> detectionResult := Some result, isDetecting := False \<rparr>))
         | Inr None \<Rightarrow> (Inr None, st1\<lparr> detectionResult := None, isDetecting := False \<rparr>)
         | Inl e \<Rightarrow>
             (Inr None,
              st1\<lparr> console := console st1 @ [e], isDetecting := False, detectionResult := None \<rparr>))"

section \<open>The classifier as the specification words it\<close>





section \<open>Rasters of one colour\<close>

text \<open>
  What the read-back gives for an image that is one opaque colour everywhere: the bytes
  \<open>r\<close>, \<open>g\<close>, \<open>b\<close>, \<open>255\<close> for each of the \<open>w * h\<close> pixels. It serves to run the
  fallback on concrete images.
\<close>

definition solidImageData :: "8 word \<Rightarrow> 8 word \<Rightarrow> 8 word \<Rightarrow> nat \<Rightarrow> nat \<Rightarrow> fault + 8 word list" where
  "solidImageData r g b w h = Inr (concat (replicate (w * h) [r, g, b, 255]))"

text \<open>
  A platform without a native detector whose canvas reads back one skin-like colour, and
  one that reads back pure blue; three images by their native size; the hook at rest.
\<close>

abbreviation skinFallback :: platform where
  "skinFallback \<equiv>
     \<lparr> faceDetector = None, context2d = True, getImageData = solidImageData 200 150 120 \<rparr>"

abbreviation blueFallback :: platform where
  "blueFallback \<equiv>
     \<lparr> faceDetector = None, context2d = True, getImageData = solidImageData 0 0 255 \<rparr>"

abbreviation portrait :: image where
  "portrait \<equiv> \<lparr> naturalWidth = 150, naturalHeight = 300 \<rparr>"

abbreviation square :: image where
  "square \<equiv> \<lparr> naturalWidth = 300, naturalHeight = 300 \<rparr>"

abbreviation strip :: image where
  "strip \<equiv> \<lparr> naturalWidth = 300, naturalHeight = 1 \<rparr>"

abbreviation idle :: hook_state where
  "idle \<equiv> \<lparr> isDetecting = False, detectionResult = None, console = [] \<rparr>"

section \<open>Rounding to the nearest double\<close>


lemma powi2_eval: "(2::real) powi e = (if 0 \<le> e then 2 ^ nat e else 1 / 2 ^ nat (- e))"
  by (simp add: power_int_def inverse_eq_divide power_one_over)

lemma bitlen_1: "bitlen 1 = 1"
  by (subst compute_bitlen) simp

lemma bitlen_Bit0: "bitlen (numeral (Num.Bit0 n)) = bitlen (numeral n) + 1"
  by (subst compute_bitlen) simp

lemma bitlen_Bit1: "bitlen (numeral (Num.Bit1 n)) = bitlen (numeral n) + 1"
  by (subst compute_bitlen) simp

lemma powi2_le: "i \<le> j \<Longrightarrow> (2::real) powi i \<le> 2 powi j"
  by (rule power_int_increasing) simp_all

lemma powi2_less: "i < j \<Longrightarrow> (2::real) powi i < 2 powi j"
  by (rule power_int_strict_increasing) simp_all

lemma powi2_less_cancel: "(2::real) powi i < 2 powi j \<Longrightarrow> i < j"
  using powi2_le [of j i] by (cases "i < j") auto

lemma powi2_split: "(2::real) powi (i + j) = 2 powi i * 2 powi j"
  by (simp add: power_int_add)

lemma powi2_diff: "(2::real) powi (i - j) = 2 powi i / 2 powi j"
  by (simp add: power_int_diff)

lemma powi2_nat: "0 \<le> i \<Longrightarrow> (2::real) powi i = of_int (2 ^ nat i)"
  by (simp add: power_int_nonneg_exp)

lemma flog2_bounds:
  assumes "0 < a"
  shows "2 powi flog2 a \<le> a" and "a < 2 powi (flog2 a + 1)"
proof -
  have "2 powi flog2 a \<le> a \<and> a < 2 powi (flog2 a + 1)"
  proof (cases "1 \<le> a")
    case True
    define n where "n = \<lfloor>a\<rfloor>"
    have n: "1 \<le> n" "of_int n \<le> a" "a < of_int (n + 1)"
      using True by (auto simp: n_def)
    have k: "1 \<le> bitlen n" using n(1) by (simp add: bitlen_alt_def)
    from bitlen_bounds [of n] n(1)
    have b: "2 ^ nat (bitlen n - 1) \<le> n" "n + 1 \<le> 2 ^ nat (bitlen n)" by auto
    have f: "flog2 a = bitlen n - 1" using True by (simp add: flog2_def n_def)
    have "(2::real) powi flog2 a = of_int (2 ^ nat (bitlen n - 1))"
      using k by (simp add: f powi2_nat)
    also have "\<dots> \<le> of_int n" using b(1) by (simp only: of_int_le_iff)
    finally have lo: "2 powi flog2 a \<le> a" using n(2) by linarith
    have "of_int (n + 1) \<le> (of_int (2 ^ nat (bitlen n)) :: real)"
      using b(2) by (simp only: of_int_le_iff)
    also have "\<dots> = 2 powi (flog2 a + 1)"
      using k by (simp add: f powi2_nat)
    finally have "a < 2 powi (flog2 a + 1)" using n(3) by linarith
    with lo show ?thesis by simp
  next
    case False
    define m where "m = \<lceil>1 / a\<rceil> - 1"
    have inv: "1 < 1 / a" using False assms by simp
    have m: "1 \<le> m" "of_int m < 1 / a" "1 / a \<le> of_int (m + 1)"
    proof -
      show "1 \<le> m" using inv by (simp add: m_def less_ceiling_iff)
      show "of_int m < 1 / a" unfolding m_def using ceiling_correct [of "1 / a"] by simp
      show "1 / a \<le> of_int (m + 1)" unfolding m_def using ceiling_correct [of "1 / a"] by simp
    qed
    have k: "1 \<le> bitlen m" using m(1) by (simp add: bitlen_alt_def)
    from bitlen_bounds [of m] m(1)
    have b: "2 ^ nat (bitlen m - 1) \<le> m" "m + 1 \<le> 2 ^ nat (bitlen m)" by auto
    have f: "flog2 a = - bitlen m" using False by (simp add: flog2_def m_def)
    have "1 / a \<le> (of_int (2 ^ nat (bitlen m)) :: real)"
      using b(2) m(3) by (smt (verit) of_int_le_iff)
    also have "\<dots> = (2::real) powi bitlen m" using k by (simp add: powi2_nat)
    finally have "1 / a \<le> 2 powi bitlen m" .
    then have lo: "2 powi flog2 a \<le> a"
      using assms by (simp add: f power_int_minus_divide field_simps)
    have "(2::real) powi (bitlen m - 1) = of_int (2 ^ nat (bitlen m - 1))"
      using k by (simp add: powi2_nat)
    also have "\<dots> \<le> of_int m"
      using b(1) by (simp only: of_int_le_iff)
    also have "\<dots> < 1 / a" by (rule m(2))
    finally have "(2::real) powi (bitlen m - 1) < 1 / a" .
    moreover have p: "0 < (2::real) powi (bitlen m - 1)" by simp
    ultimately have "a < 1 / 2 powi (bitlen m - 1)"
      using assms by (simp add: field_simps)
    moreover have "flog2 a + 1 = - (bitlen m - 1)" by (simp add: f)
    then have "(2::real) powi (flog2 a + 1) = 1 / 2 powi (bitlen m - 1)"
      by (simp only: power_int_minus_divide)
    ultimately have "a < 2 powi (flog2 a + 1)" by simp
    with lo show ?thesis by simp
  qed
  then show "2 powi flog2 a \<le> a" and "a < 2 powi (flog2 a + 1)" by simp_all
qed

lemma flog2_unique:
  assumes "2 powi k \<le> a" "a < 2 powi (k + 1)"
  shows "flog2 a = k"
proof -
  have pos: "0 < a" using assms(1) zero_less_power_int [of "2::real" k] by linarith
  have "2 powi flog2 a < (2::real) powi (k + 1)"
    using flog2_bounds(1) [OF pos] assms(2) by linarith
  then have 1: "flog2 a < k + 1" by (rule powi2_less_cancel)
  have "(2::real) powi k < 2 powi (flog2 a + 1)"
    using flog2_bounds(2) [OF pos] assms(1) by linarith
  then have "k < flog2 a + 1" by (rule powi2_less_cancel)
  with 1 show ?thesis by linarith
qed

lemma flog2_mono:
  assumes "0 < a" "a \<le> b"
  shows "flog2 a \<le> flog2 b"
proof -
  have "2 powi flog2 a < (2::real) powi (flog2 b + 1)"
    using flog2_bounds(1) [OF assms(1)] flog2_bounds(2) [of b] assms by linarith
  then have "flog2 a < flog2 b + 1" by (rule powi2_less_cancel)
  then show ?thesis by simp
qed

lemma round_even_cases:
  "round_even a = \<lfloor>a\<rfloor> \<and> a - of_int \<lfloor>a\<rfloor> \<le> 1 / 2
   \<or> round_even a = \<lfloor>a\<rfloor> + 1 \<and> 1 / 2 \<le> a - of_int \<lfloor>a\<rfloor>"
  by (auto simp: round_even_def Let_def)


lemma round_even_of_int: "round_even (of_int k) = k"
  by (simp add: round_even_def)

lemma round_even_mono:
  assumes "a \<le> b"
  shows "round_even a \<le> round_even b"
proof (cases "\<lfloor>a\<rfloor> = \<lfloor>b\<rfloor>")
  case True
  then show ?thesis using assms by (auto simp: round_even_def Let_def)
next
  case False
  then have "\<lfloor>a\<rfloor> + 1 \<le> \<lfloor>b\<rfloor>" using floor_mono [OF assms] by linarith
  moreover have "round_even a \<le> \<lfloor>a\<rfloor> + 1" using round_even_cases [of a] by auto
  moreover have "\<lfloor>b\<rfloor> \<le> round_even b" using round_even_cases [of b] by auto
  ultimately show ?thesis by linarith
qed

lemma round_even_ge: "of_int k \<le> a \<Longrightarrow> k \<le> round_even a"
  using round_even_mono [of "of_int k" a] by (simp add: round_even_of_int)

lemma round_even_le: "a \<le> of_int k \<Longrightarrow> round_even a \<le> k"
  using round_even_mono [of a "of_int k"] by (simp add: round_even_of_int)


lemma ulp_exp_minus: "ulp_exp (- a) = ulp_exp a"
  by (simp add: ulp_exp_def)

lemma ulp_exp_ge: "- 1074 \<le> ulp_exp a"
  by (simp add: ulp_exp_def)

lemma ulp_exp_mono:
  assumes "0 < a" "a \<le> b"
  shows "ulp_exp a \<le> ulp_exp b"
  using flog2_mono [OF assms] assms by (simp add: ulp_exp_def)

lemma rnd_zero: "rnd 0 = 0"
  by (simp add: rnd_def)

lemma rnd_minus: "rnd (- a) = - rnd a"
  by (simp add: rnd_def ulp_exp_minus sgn_minus)

lemma rnd_pos_eq:
  "0 < a \<Longrightarrow> rnd a = of_int (round_even (a / 2 powi ulp_exp a)) * 2 powi ulp_exp a"
  by (simp add: rnd_def)

lemma scaled_less:
  assumes "0 < a"
  shows "a / 2 powi ulp_exp a < 2 ^ 53"
proof -
  have "flog2 a + 1 \<le> ulp_exp a + 53" using assms by (simp add: ulp_exp_def)
  then have "(2::real) powi (flog2 a + 1) \<le> 2 powi (ulp_exp a + 53)" by (rule powi2_le)
  with flog2_bounds(2) [OF assms] have "a < 2 powi (ulp_exp a + 53)" by linarith
  also have "\<dots> = 2 powi ulp_exp a * 2 ^ 53" by (simp add: powi2_split)
  finally show ?thesis by (simp add: field_simps)
qed

lemma scaled_ge:
  assumes "0 < a" "- 1074 < ulp_exp a"
  shows "2 ^ 52 \<le> a / 2 powi ulp_exp a"
proof -
  have e: "flog2 a = ulp_exp a + 52" using assms by (simp add: ulp_exp_def split: if_splits)
  have "(2::real) powi (ulp_exp a + 52) \<le> a" using flog2_bounds(1) [OF assms(1)] by (simp add: e)
  moreover have "(2::real) powi (ulp_exp a + 52) = 2 powi ulp_exp a * 2 ^ 52"
    by (simp add: powi2_split)
  ultimately show ?thesis by (simp add: field_simps)
qed

lemma mant_le:
  assumes "0 < a"
  shows "round_even (a / 2 powi ulp_exp a) \<le> 2 ^ 53"
  by (rule round_even_le) (use scaled_less [OF assms] in simp)

lemma mant_ge:
  assumes "0 < a" "- 1074 < ulp_exp a"
  shows "2 ^ 52 \<le> round_even (a / 2 powi ulp_exp a)"
  by (rule round_even_ge) (use scaled_ge [OF assms] in simp)

lemma mant_nonneg:
  assumes "0 \<le> a"
  shows "0 \<le> round_even (a / 2 powi ulp_exp a)"
  by (rule round_even_ge) (use assms in simp)

lemma rnd_nonneg: "0 \<le> a \<Longrightarrow> 0 \<le> rnd a"
  using mant_nonneg [of a] by (cases "a = 0") (simp_all add: rnd_zero rnd_pos_eq)

lemma rnd_mono_pos:
  assumes "0 < a" "a \<le> b"
  shows "rnd a \<le> rnd b"
proof -
  have b: "0 < b" using assms by linarith
  have le: "ulp_exp a \<le> ulp_exp b" by (rule ulp_exp_mono [OF assms])
  show ?thesis
  proof (cases "ulp_exp a = ulp_exp b")
    case True
    have "a / 2 powi ulp_exp b \<le> b / 2 powi ulp_exp b"
      using assms(2) by (simp add: divide_right_mono)
    then have "round_even (a / 2 powi ulp_exp b) \<le> round_even (b / 2 powi ulp_exp b)"
      by (rule round_even_mono)
    then have "(of_int (round_even (a / 2 powi ulp_exp b)) :: real)
        \<le> of_int (round_even (b / 2 powi ulp_exp b))"
      by (simp only: of_int_le_iff)
    then show ?thesis
      by (simp add: rnd_pos_eq [OF assms(1)] rnd_pos_eq [OF b] True mult_right_mono)
  next
    case False
    with le have lt: "ulp_exp a < ulp_exp b" by simp
    then have nb: "- 1074 < ulp_exp b" using ulp_exp_ge [of a] by linarith
    have "(of_int (round_even (a / 2 powi ulp_exp a)) :: real) \<le> of_int (2 ^ 53)"
      using mant_le [OF assms(1)] by (simp only: of_int_le_iff)
    then have "rnd a \<le> 2 ^ 53 * 2 powi ulp_exp a"
      by (simp add: rnd_pos_eq [OF assms(1)] mult_right_mono)
    also have "\<dots> = 2 powi (ulp_exp a + 53)" by (simp add: powi2_split)
    also have "\<dots> \<le> 2 powi (ulp_exp b + 52)" by (rule powi2_le) (use lt in simp)
    also have "\<dots> = 2 ^ 52 * 2 powi ulp_exp b" by (simp add: powi2_split)
    also have "\<dots> \<le> rnd b"
    proof -
      have "(of_int (2 ^ 52) :: real) \<le> of_int (round_even (b / 2 powi ulp_exp b))"
        using mant_ge [OF b nb] by (simp only: of_int_le_iff)
      then show ?thesis by (simp add: rnd_pos_eq [OF b] mult_right_mono)
    qed
    finally show ?thesis .
  qed
qed

lemma rnd_mono:
  assumes "a \<le> b"
  shows "rnd a \<le> rnd b"
proof -
  consider "0 < a" | "a \<le> 0" "0 \<le> b" | "b < 0" using assms by linarith
  then show ?thesis
  proof cases
    case 1
    then show ?thesis using assms by (rule rnd_mono_pos)
  next
    case 2
    have "rnd a \<le> 0" using rnd_nonneg [of "- a"] 2(1) by (simp add: rnd_minus)
    moreover have "0 \<le> rnd b" using 2(2) by (rule rnd_nonneg)
    ultimately show ?thesis by linarith
  next
    case 3
    then have "rnd (- b) \<le> rnd (- a)" using assms by (intro rnd_mono_pos) simp_all
    then show ?thesis by (simp add: rnd_minus)
  qed
qed

lemma rnd_exact_pos:
  assumes "- 1074 \<le> e" "0 < m" "m \<le> 2 ^ 53"
  shows "rnd (of_int m * 2 powi e) = of_int m * 2 powi e"
proof -
  define v :: real where "v = of_int m * 2 powi e"
  have v: "0 < v" using assms(2) by (simp add: v_def)
  have "\<exists>k. v / 2 powi ulp_exp v = of_int k"
  proof (cases "m = 2 ^ 53")
    case True
    have v53: "v = 2 powi (e + 53)" by (simp add: v_def True powi2_split)
    have "flog2 v = e + 53"
      by (rule flog2_unique) (simp_all add: v53 powi2_less)
    then have "ulp_exp v = e + 1" using v assms(1) by (simp add: ulp_exp_def)
    then have "v / 2 powi ulp_exp v = 2 powi (e + 53) / 2 powi (e + 1)" by (simp add: v53)
    also have "\<dots> = 2 powi ((e + 53) - (e + 1))" by (simp only: powi2_diff)
    also have "\<dots> = of_int (2 ^ 52)" by simp
    finally show ?thesis by blast
  next
    case False
    with assms(3) have "m + 1 \<le> 2 ^ 53" by simp
    then have "(of_int (m + 1) :: real) \<le> of_int (2 ^ 53)" by (simp only: of_int_le_iff)
    then have "(of_int m :: real) < 2 ^ 53" by simp
    then have "v < 2 ^ 53 * 2 powi e" by (simp add: v_def)
    also have "\<dots> = 2 powi (e + 53)" by (simp add: powi2_split)
    finally have "v < 2 powi (e + 53)" .
    with flog2_bounds(1) [OF v] have "(2::real) powi flog2 v < 2 powi (e + 53)" by linarith
    then have "flog2 v < e + 53" by (rule powi2_less_cancel)
    then have le: "ulp_exp v \<le> e" using v assms(1) by (simp add: ulp_exp_def)
    have "v / 2 powi ulp_exp v = of_int m * 2 powi (e - ulp_exp v)"
      by (simp add: v_def powi2_diff)
    also have "\<dots> = of_int m * of_int (2 ^ nat (e - ulp_exp v))"
      using le by (simp add: powi2_nat)
    also have "\<dots> = of_int (m * 2 ^ nat (e - ulp_exp v))" by simp
    finally show ?thesis by blast
  qed
  then obtain k where k: "v / 2 powi ulp_exp v = of_int k" ..
  have "rnd v = of_int (round_even (v / 2 powi ulp_exp v)) * 2 powi ulp_exp v"
    by (rule rnd_pos_eq [OF v])
  also have "\<dots> = (v / 2 powi ulp_exp v) * 2 powi ulp_exp v"
    by (simp add: k round_even_of_int)
  also have "\<dots> = v" by simp
  finally show ?thesis by (simp add: v_def)
qed

lemma rnd_exact:
  assumes "- 1074 \<le> e" "\<bar>m\<bar> \<le> 2 ^ 53"
  shows "rnd (of_int m * 2 powi e) = of_int m * 2 powi e"
proof -
  consider "m = 0" | "0 < m" | "m < 0" by linarith
  then show ?thesis
  proof cases
    case 1
    then show ?thesis by (simp add: rnd_zero)
  next
    case 2
    then show ?thesis using assms by (intro rnd_exact_pos) simp_all
  next
    case 3
    then have "rnd (of_int (- m) * 2 powi e) = of_int (- m) * 2 powi e"
      using assms by (intro rnd_exact_pos) simp_all
    then show ?thesis using rnd_minus [of "of_int m * 2 powi e"] by simp
  qed
qed

lemma rnd_idem_nonneg:
  assumes "0 \<le> a"
  shows "rnd (rnd a) = rnd a"
proof (cases "a = 0")
  case True
  then show ?thesis by (simp add: rnd_zero)
next
  case False
  with assms have a: "0 < a" by simp
  have "\<bar>round_even (a / 2 powi ulp_exp a)\<bar> \<le> 2 ^ 53"
    using mant_le [OF a] mant_nonneg [OF assms] by simp
  then show ?thesis
    unfolding rnd_pos_eq [OF a] using ulp_exp_ge [of a] by (intro rnd_exact)
qed

lemma rnd_idem: "rnd (rnd a) = rnd a"
proof (cases "0 \<le> a")
  case True
  then show ?thesis by (rule rnd_idem_nonneg)
next
  case False
  then have "rnd (rnd (- a)) = rnd (- a)" by (intro rnd_idem_nonneg) simp
  then show ?thesis by (simp add: rnd_minus)
qed





lemma rnd_pow2: "rnd (2 ^ n) = 2 ^ n"
  using rnd_exact [of "int n" 1] by simp

lemma rnd_inv_pow2: "n \<le> 1074 \<Longrightarrow> rnd (1 / 2 ^ n) = 1 / 2 ^ n"
  using rnd_exact [of "- int n" 1] by (simp add: power_int_minus_divide)

lemma rnd_of_nat: "n \<le> 2 ^ 53 \<Longrightarrow> rnd (of_nat n) = of_nat n"
  using rnd_exact [of 0 "int n"] by simp

lemma rnd_le_pow2: "a \<le> 2 ^ n \<Longrightarrow> rnd a \<le> 2 ^ n"
  using rnd_mono [of a "2 ^ n"] by (simp add: rnd_pow2)

lemma rnd_ge_inv_pow2: "1 / 2 ^ n \<le> a \<Longrightarrow> n \<le> 1074 \<Longrightarrow> 1 / 2 ^ n \<le> rnd a"
  using rnd_mono [of "1 / 2 ^ n" a] by (simp add: rnd_inv_pow2)

lemma fl_finite:
  assumes "0 \<le> a" "a \<le> 2 ^ n" "n \<le> 1000"
  shows "fl a = Fin (rnd a)"
proof -
  have "rnd a \<le> 2 ^ n" using assms(2) by (rule rnd_le_pow2)
  also have "(2::real) ^ n \<le> 2 ^ 1000" using assms(3) by (intro power_increasing) simp_all
  also have "\<dots> < (2::real) ^ 1024" by simp
  finally have "rnd a < 2 ^ 1024" .
  moreover have "0 \<le> rnd a" using assms(1) by (rule rnd_nonneg)
  ultimately show ?thesis by (simp add: fl_def Let_def)
qed

lemma fl_not_NaN: "fl a \<noteq> NaN"
  by (simp add: fl_def Let_def)

lemma fl_zero: "fl 0 = Fin 0"
  by (simp add: fl_def rnd_zero)

lemma fmul_commute: "fmul a b = fmul b a"
  by (cases a; cases b) (simp_all add: mult.commute)

lemma to_uint32_less: "to_uint32 v < 2 ^ 32"
proof (cases v)
  case (Fin a)
  have "(if 0 \<le> a then \<lfloor>a\<rfloor> else \<lceil>a\<rceil>) mod 2 ^ 32 < 2 ^ 32" by simp
  then show ?thesis by (simp add: Fin nat_less_iff)
qed simp_all


lemma row_scan:
  "concat (map (\<lambda>col. if P col then [(col, row)] else []) cs)
     = map (\<lambda>col. (col, row)) (filter P cs)"
  by (induction cs) simp_all

lemma scan_mem:
  "(px, py) \<in> set (concat (map (\<lambda>row. concat (map (\<lambda>col.
        if P col row then [(col, row)] else []) [0..<cw])) [0..<ch]))
     \<longleftrightarrow> px < cw \<and> py < ch \<and> P px py"
  by (auto split: if_splits)

lemma scan_distinct:
  "distinct (concat (map (\<lambda>row. concat (map (\<lambda>col.
        if P col row then [(col, row)] else []) [0..<cw])) [0..<ch]))"
proof (induction ch)
  case 0
  show ?case by simp
next
  case (Suc n)
  have "distinct (map (\<lambda>col. (col, n)) (filter (\<lambda>col. P col n) [0..<cw]))"
    by (simp add: distinct_map inj_on_def)
  then show ?case
    using Suc by (auto simp: row_scan split: if_splits)
qed

lemma scan_all:
  assumes "\<And>col row. col < cw \<Longrightarrow> row < ch \<Longrightarrow> P col row"
  shows "length (concat (map (\<lambda>row. concat (map (\<lambda>col.
        if P col row then [(col, row)] else []) [0..<cw])) [0..<ch])) = cw * ch"
  using assms
proof (induction ch)
  case 0
  show ?case by simp
next
  case (Suc n)
  have "filter (\<lambda>col. P col n) [0..<cw] = [0..<cw]"
    using Suc.prems by (intro filter_True) simp
  then show ?case using Suc by (simp add: row_scan)
qed

lemma scan_none:
  assumes "\<And>col row. col < cw \<Longrightarrow> row < ch \<Longrightarrow> \<not> P col row"
  shows "concat (map (\<lambda>row. concat (map (\<lambda>col.
        if P col row then [(col, row)] else []) [0..<cw])) [0..<ch]) = []"
  using assms by (simp add: row_scan)

lemma skinPixels_mem:
  "(px, py) \<in> set (skinPixels cw ch data) \<longleftrightarrow>
     px < cw \<and> py < ch
     \<and> isSkinTone (sample data ((py * cw + px) * 4)) (sample data ((py * cw + px) * 4 + 1))
          (sample data ((py * cw + px) * 4 + 2))"
  unfolding skinPixels_def Let_def by (rule scan_mem)

lemma skinPixels_distinct: "distinct (skinPixels cw ch data)"
  unfolding skinPixels_def Let_def by (rule scan_distinct)

lemma Min_insert_min:
  "finite S \<Longrightarrow> Min (insert (min a b) S) = Min (insert (a::nat) (insert b S))"
  by (cases "S = {}") (simp_all add: min.assoc)

lemma Max_insert_max:
  "finite S \<Longrightarrow> Max (insert (max a b) S) = Max (insert (a::nat) (insert b S))"
  by (cases "S = {}") (simp_all add: max.assoc)

lemma fold_boundsStep:
  "fold boundsStep ps (a, b, c, d) =
     (Min (insert a (fst ` set ps)), Max (insert b (fst ` set ps)),
      Min (insert c (snd ` set ps)), Max (insert d (snd ` set ps)))"
proof (induction ps arbitrary: a b c d)
  case Nil
  show ?case by simp
next
  case (Cons p ps)
  obtain px py where p: "p = (px, py)" by (cases p)
  show ?case
    by (simp add: p Cons.IH Min_insert_min Max_insert_max insert_commute)
qed

lemma bounds_eq:
  assumes "ps \<noteq> []" "\<And>px py. (px, py) \<in> set ps \<Longrightarrow> px < cw \<and> py < ch"
  shows "bounds cw ch ps =
     (Min (fst ` set ps), Max (fst ` set ps), Min (snd ` set ps), Max (snd ` set ps))"
proof -
  have ne: "fst ` set ps \<noteq> {}" "snd ` set ps \<noteq> {}" using assms(1) by simp_all
  have "Min (fst ` set ps) \<in> fst ` set ps" using ne by (intro Min_in) simp_all
  then have 1: "Min (fst ` set ps) \<le> cw" using assms(2) by (auto simp: less_imp_le)
  have "Min (snd ` set ps) \<in> snd ` set ps" using ne by (intro Min_in) simp_all
  then have 2: "Min (snd ` set ps) \<le> ch" using assms(2) by (auto simp: less_imp_le)
  show ?thesis
    using ne 1 2 by (simp add: bounds_def fold_boundsStep min_absorb2 max_absorb2)
qed

section \<open>The scale and the box of the bounds\<close>


lemma unat32_less: "unat (w :: 32 word) < 2 ^ 32"
  using unsigned_less [of w, where 'a = nat] by simp

lemma num_zero: "num 0 = Fin 0"
  by (simp add: num_def)

lemma quot300:
  assumes "1 \<le> n" "n < 2 ^ 32"
  shows "\<exists>q. fdiv (num 300) (num n) = Fin q \<and> 75 / 2 ^ 30 \<le> q \<and> q \<le> 300"
proof -
  have n: "1 \<le> (of_nat n :: real)" "(of_nat n :: real) \<le> 2 ^ 32"
    using assms by (simp_all add: of_nat_less_numeral_power_cancel_iff less_imp_le)
  have up: "300 / of_nat n \<le> (300 :: real)" using n(1) by (simp add: field_simps)
  have "300 / (2 ^ 32 :: real) \<le> 300 / of_nat n"
    using n by (intro divide_left_mono) simp_all
  then have lo: "75 / 2 ^ 30 \<le> 300 / (of_nat n :: real)" by simp
  have "fl (300 / of_nat n) = Fin (rnd (300 / of_nat n))"
    using up n(1) by (intro fl_finite [where n = 9]) simp_all
  then have 1: "fdiv (num 300) (num n) = Fin (rnd (300 / of_nat n))"
    using assms(1) by (simp add: num_def)
  have "rnd 300 = 300" using rnd_of_nat [of 300] by simp
  with rnd_mono [OF up] have 2: "rnd (300 / of_nat n) \<le> 300" by simp
  have "rnd (of_int 75 * 2 powi (- 30)) = of_int 75 * 2 powi (- 30)"
    by (rule rnd_exact) simp_all
  then have "rnd (75 / 2 ^ 30) = 75 / 2 ^ 30" by (simp add: power_int_minus_divide)
  with rnd_mono [OF lo] have 3: "75 / 2 ^ 30 \<le> rnd (300 / of_nat n)" by simp
  from 1 2 3 show ?thesis by blast
qed

lemma scaleOf_Fin:
  assumes "1 \<le> unat (naturalWidth img)" "1 \<le> unat (naturalHeight img)"
  shows "\<exists>s. scaleOf img = Fin s \<and> 75 / 2 ^ 30 \<le> s \<and> s \<le> 300"
proof -
  obtain q1 where q1: "fdiv (num 300) (num (unat (naturalWidth img))) = Fin q1"
      "75 / 2 ^ 30 \<le> q1" "q1 \<le> 300"
    using quot300 [OF assms(1) unat32_less] by blast
  obtain q2 where q2: "fdiv (num 300) (num (unat (naturalHeight img))) = Fin q2"
      "75 / 2 ^ 30 \<le> q2" "q2 \<le> 300"
    using quot300 [OF assms(2) unat32_less] by blast
  show ?thesis using q1 q2 by (simp add: scaleOf_def)
qed

lemma fmul_zero_dim: "to_uint32 (fmul (Fin 0) v) = 0"
  by (cases v) (simp_all add: fl_zero)

lemma canvasWidth_pos: "1 \<le> canvasWidth img \<Longrightarrow> 1 \<le> unat (naturalWidth img)"
  by (cases "unat (naturalWidth img) = 0") (simp_all add: canvasWidth_def num_zero fmul_zero_dim)

lemma canvasHeight_pos: "1 \<le> canvasHeight img \<Longrightarrow> 1 \<le> unat (naturalHeight img)"
  by (cases "unat (naturalHeight img) = 0") (simp_all add: canvasHeight_def num_zero fmul_zero_dim)

lemma canvasWidth_less: "canvasWidth img < 2 ^ 32"
  unfolding canvasWidth_def by (rule to_uint32_less)

lemma canvasHeight_less: "canvasHeight img < 2 ^ 32"
  unfolding canvasHeight_def by (rule to_uint32_less)

lemma fsub_num:
  assumes "m \<le> n" "n < 2 ^ 32"
  shows "fsub (num n) (num m) = num (n - m)"
proof -
  have "(of_nat (n - m) :: real) \<le> 2 ^ 32"
    using assms by (simp add: of_nat_le_numeral_power_cancel_iff)
  then have "fl (of_nat (n - m)) = Fin (rnd (of_nat (n - m)))"
    by (intro fl_finite [where n = 32]) simp_all
  moreover have "n - m \<le> 2 ^ 53" using assms by simp
  ultimately have "fl (of_nat (n - m)) = Fin (of_nat (n - m))" by (simp add: rnd_of_nat)
  then show ?thesis using assms(1) by (simp add: fsub_def num_def of_nat_diff)
qed

lemma scaled_value:
  assumes "75 / 2 ^ 30 \<le> s" "s \<le> 300" "a = 0 \<or> 1 / 2 \<le> a" "a \<le> 2 ^ 32"
  shows "\<exists>r. fdiv (Fin a) (Fin s) = Fin r \<and> 0 \<le> r \<and> r \<le> 2 ^ 56
           \<and> (r = 0 \<longleftrightarrow> a = 0)"
proof -
  have "(0::real) < 75 / 2 ^ 30" by simp
  with assms(1) have s: "0 < s" by linarith
  have a: "0 \<le> a" using assms(3) by auto
  have "a / s \<le> 2 ^ 32 / (75 / 2 ^ 30)"
    using assms a s by (intro frac_le) simp_all
  also have "\<dots> \<le> (2 ^ 56 :: real)" by simp
  finally have up: "a / s \<le> 2 ^ 56" .
  have nn: "0 \<le> a / s" using a s by simp
  have f: "fdiv (Fin a) (Fin s) = Fin (rnd (a / s))"
    using s fl_finite [OF nn up] by simp
  have z: "rnd (a / s) = 0 \<longleftrightarrow> a = 0"
  proof
    assume r0: "rnd (a / s) = 0"
    show "a = 0"
    proof (rule ccontr)
      assume "a \<noteq> 0"
      with assms(3) have "1 / 2 \<le> a" by simp
      then have "(1 / 2) / 300 \<le> a / s" using assms(2) s by (intro frac_le) simp_all
      then have "1 / 2 ^ 10 \<le> a / s" by simp
      then have "1 / 2 ^ 10 \<le> rnd (a / s)" by (intro rnd_ge_inv_pow2) simp_all
      with r0 show False by simp
    qed
  next
    assume "a = 0"
    then show "rnd (a / s) = 0" by (simp add: rnd_zero)
  qed
  show ?thesis
  proof (intro exI conjI)
    show "fdiv (Fin a) (Fin s) = Fin (rnd (a / s))" by (rule f)
    show "0 \<le> rnd (a / s)" by (rule rnd_nonneg [OF nn])
    show "rnd (a / s) \<le> 2 ^ 56" by (rule rnd_le_pow2 [OF up])
    show "rnd (a / s) = 0 \<longleftrightarrow> a = 0" by (rule z)
  qed
qed

lemma lit_six_tenths: "\<exists>c. lit (6 / 10) = Fin c \<and> 1 / 2 \<le> c \<and> c \<le> 1"
proof -
  have "fl (6 / 10) = Fin (rnd (6 / 10))" by (intro fl_finite [where n = 0]) simp_all
  moreover have "1 / 2 ^ 1 \<le> rnd (6 / 10)" by (intro rnd_ge_inv_pow2) simp_all
  moreover have "rnd (6 / 10) \<le> 2 ^ 0" by (intro rnd_le_pow2) simp
  ultimately show ?thesis by (simp add: lit_def)
qed

lemma headHeight_value:
  assumes "d < 2 ^ 32"
  shows "\<exists>hh. fmul (num d) (lit (6 / 10)) = Fin hh \<and> (hh = 0 \<or> 1 / 2 \<le> hh)
           \<and> hh \<le> 2 ^ 32 \<and> (hh = 0 \<longleftrightarrow> d = 0)"
proof -
  obtain c where c: "lit (6 / 10) = Fin c" "1 / 2 \<le> c" "c \<le> 1"
    using lit_six_tenths by blast
  have d: "(of_nat d :: real) \<le> 2 ^ 32"
    using assms by (simp add: of_nat_less_numeral_power_cancel_iff less_imp_le)
  have nn: "0 \<le> of_nat d * c" using c(2) by simp
  have "of_nat d * c \<le> of_nat d * 1" using c(3) by (intro mult_left_mono) simp_all
  with d have up: "of_nat d * c \<le> 2 ^ 32" by simp
  have f: "fmul (num d) (lit (6 / 10)) = Fin (rnd (of_nat d * c))"
    using fl_finite [OF nn up] c(1) by (simp add: num_def)
  have big: "1 / 2 \<le> rnd (of_nat d * c)" if "d \<noteq> 0"
  proof -
    have "1 \<le> (of_nat d :: real)" using that by simp
    then have "1 * (1 / 2) \<le> of_nat d * c" using c(2) by (intro mult_mono) simp_all
    then have "1 / 2 ^ 1 \<le> of_nat d * c" by simp
    then have "1 / 2 ^ 1 \<le> rnd (of_nat d * c)" by (intro rnd_ge_inv_pow2) simp_all
    then show ?thesis by simp
  qed
  have zero: "rnd (of_nat d * c) = 0" if "d = 0" using that by (simp add: rnd_zero)
  show ?thesis
    using f big zero rnd_le_pow2 [OF up] by (cases "d = 0") auto
qed

lemma of_nat_le_2p32: "k < 2 ^ 32 \<Longrightarrow> (of_nat k :: real) \<le> 2 ^ 32"
proof -
  assume "k < 2 ^ 32"
  then have "(of_nat k :: real) < of_nat (2 ^ 32)" by (simp only: of_nat_less_iff)
  then show ?thesis by simp
qed

lemma scaled_nat:
  assumes "75 / 2 ^ 30 \<le> s" "s \<le> 300" "k < 2 ^ 32"
  shows "\<exists>r. fdiv (num k) (Fin s) = Fin r \<and> 0 \<le> r \<and> r \<le> 2 ^ 56
           \<and> (r = 0 \<longleftrightarrow> k = 0)"
proof -
  have v: "(of_nat k :: real) = 0 \<or> 1 / 2 \<le> (of_nat k :: real)"
    by (cases k) simp_all
  from scaled_value [OF assms(1,2) v of_nat_le_2p32 [OF assms(3)]]
  show ?thesis by (simp add: num_def)
qed

lemma fl_Fin_rnd: "fl a = Fin r \<Longrightarrow> rnd r = r"
  by (auto simp: fl_def Let_def rnd_idem split: if_splits)

lemma fdiv_Fin_rnd: "fdiv a b = Fin r \<Longrightarrow> rnd r = r"
  by (cases a; cases b) (auto simp: signed_inf_def rnd_zero dest: fl_Fin_rnd split: if_splits)

lemma boxOfBounds_shape:
  assumes "75 / 2 ^ 30 \<le> s" "s \<le> 300"
    and "minX \<le> maxX" "maxX < 2 ^ 32" "minY \<le> maxY" "maxY < 2 ^ 32"
  shows "\<exists>vx vy vw vh. boxOfBounds (Fin s) (minX, maxX, minY, maxY)
             = \<lparr> x = Fin vx, y = Fin vy, width = Fin vw, height = Fin vh \<rparr>
           \<and> 0 \<le> vx \<and> 0 \<le> vy \<and> 0 \<le> vw \<and> 0 \<le> vh \<and> vy \<le> 2 ^ 56 \<and> vh \<le> 2 ^ 56
           \<and> (vw = 0 \<longleftrightarrow> maxX = minX) \<and> (vh = 0 \<longleftrightarrow> maxY = minY)"
proof -
  have minX: "minX < 2 ^ 32" and minY: "minY < 2 ^ 32" using assms(3-6) by simp_all
  have dx: "maxX - minX < 2 ^ 32" and dy: "maxY - minY < 2 ^ 32" using assms(3-6) by simp_all
  from scaled_nat [OF assms(1,2) minX]
  obtain vx where "fdiv (num minX) (Fin s) = Fin vx \<and> 0 \<le> vx \<and> vx \<le> 2 ^ 56
      \<and> (vx = 0 \<longleftrightarrow> minX = 0)" ..
  then have vx: "fdiv (num minX) (Fin s) = Fin vx" "0 \<le> vx"
    by simp_all
  from scaled_nat [OF assms(1,2) minY]
  obtain vy where "fdiv (num minY) (Fin s) = Fin vy \<and> 0 \<le> vy \<and> vy \<le> 2 ^ 56
      \<and> (vy = 0 \<longleftrightarrow> minY = 0)" ..
  then have vy: "fdiv (num minY) (Fin s) = Fin vy" "0 \<le> vy" "vy \<le> 2 ^ 56"
    by simp_all
  from scaled_nat [OF assms(1,2) dx]
  obtain vw where "fdiv (num (maxX - minX)) (Fin s) = Fin vw \<and> 0 \<le> vw \<and> vw \<le> 2 ^ 56
      \<and> (vw = 0 \<longleftrightarrow> maxX - minX = 0)" ..
  then have vw: "fdiv (num (maxX - minX)) (Fin s) = Fin vw" "0 \<le> vw"
      "vw = 0 \<longleftrightarrow> maxX - minX = 0"
    by simp_all
  from headHeight_value [OF dy]
  obtain hh where "fmul (num (maxY - minY)) (lit (6 / 10)) = Fin hh \<and> (hh = 0 \<or> 1 / 2 \<le> hh)
      \<and> hh \<le> 2 ^ 32 \<and> (hh = 0 \<longleftrightarrow> maxY - minY = 0)" ..
  then have hh: "fmul (num (maxY - minY)) (lit (6 / 10)) = Fin hh"
      "hh = 0 \<or> 1 / 2 \<le> hh" "hh \<le> 2 ^ 32" "hh = 0 \<longleftrightarrow> maxY - minY = 0"
    by auto
  from scaled_value [OF assms(1,2) hh(2,3)]
  obtain vh where "fdiv (Fin hh) (Fin s) = Fin vh \<and> 0 \<le> vh \<and> vh \<le> 2 ^ 56
      \<and> (vh = 0 \<longleftrightarrow> hh = 0)" ..
  then have vh: "fdiv (Fin hh) (Fin s) = Fin vh" "0 \<le> vh" "vh \<le> 2 ^ 56"
      "vh = 0 \<longleftrightarrow> hh = 0"
    by simp_all
  have A: "boxOfBounds (Fin s) (minX, maxX, minY, maxY)
      = \<lparr> x = Fin vx, y = Fin vy, width = Fin vw, height = Fin vh \<rparr>"
    unfolding boxOfBounds_def Let_def prod.case fsub_num [OF assms(3,4)]
      fsub_num [OF assms(5,6)] hh(1) vh(1) vx(1) vy(1) vw(1)
    by (rule refl)
  have B: "vw = 0 \<longleftrightarrow> maxX = minX" using vw(3) assms(3) by simp
  have C: "vh = 0 \<longleftrightarrow> maxY = minY" using vh(4) hh(4) assms(5) by simp
  from A vx(2) vy(2,3) vw(2) vh(2,3) B C
  have "boxOfBounds (Fin s) (minX, maxX, minY, maxY)
             = \<lparr> x = Fin vx, y = Fin vy, width = Fin vw, height = Fin vh \<rparr>
           \<and> 0 \<le> vx \<and> 0 \<le> vy \<and> 0 \<le> vw \<and> 0 \<le> vh \<and> vy \<le> 2 ^ 56 \<and> vh \<le> 2 ^ 56
           \<and> (vw = 0 \<longleftrightarrow> maxX = minX) \<and> (vh = 0 \<longleftrightarrow> maxY = minY)"
    by (intro conjI)
  then show ?thesis by (intro exI)
qed

section \<open>The collected pixels\<close>


lemma skinPixels_inside:
  "(px, py) \<in> set (skinPixels cw ch data) \<Longrightarrow> px < cw \<and> py < ch"
  by (simp add: skinPixels_mem)

lemma skinPixels_bounds:
  assumes "skinPixels cw ch data \<noteq> []"
  shows "bounds cw ch (skinPixels cw ch data) =
     (Min (fst ` set (skinPixels cw ch data)), Max (fst ` set (skinPixels cw ch data)),
      Min (snd ` set (skinPixels cw ch data)), Max (snd ` set (skinPixels cw ch data)))"
  using assms by (rule bounds_eq) (rule skinPixels_inside)

lemma not_one_point:
  assumes "distinct ps" "2 \<le> length ps"
  shows "\<not> (Max (fst ` set ps) = Min (fst ` set ps) \<and> Max (snd ` set ps) = Min (snd ` set ps))"
proof
  assume eq: "Max (fst ` set ps) = Min (fst ` set ps) \<and> Max (snd ` set ps) = Min (snd ` set ps)"
  have "p = (Min (fst ` set ps), Min (snd ` set ps))" if "p \<in> set ps" for p
  proof -
    have "Min (fst ` set ps) \<le> fst p" "fst p \<le> Max (fst ` set ps)"
      "Min (snd ` set ps) \<le> snd p" "snd p \<le> Max (snd ` set ps)"
      using that by simp_all
    with eq have "fst p = Min (fst ` set ps)" "snd p = Min (snd ` set ps)" by auto
    then show ?thesis by (simp add: prod_eq_iff)
  qed
  then have "set ps \<subseteq> {(Min (fst ` set ps), Min (snd ` set ps))}" by blast
  then have "card (set ps) \<le> card {(Min (fst ` set ps), Min (snd ` set ps))}"
    by (intro card_mono) simp_all
  then have "length ps \<le> 1" using assms(1) by (simp add: distinct_card)
  with assms(2) show False by simp
qed

lemma run_shape:
  assumes "pixels = skinPixels (canvasWidth img) (canvasHeight img) data" "2 \<le> length pixels"
  shows "\<exists>s vx vy vw vh. scaleOf img = Fin s \<and> 0 < s
           \<and> candidateBox (canvasWidth img) (canvasHeight img) (scaleOf img) pixels
               = \<lparr> x = Fin vx, y = Fin vy, width = Fin vw, height = Fin vh \<rparr>
           \<and> 0 \<le> vx \<and> 0 \<le> vy \<and> 0 \<le> vw \<and> 0 \<le> vh \<and> vy \<le> 2 ^ 56 \<and> vh \<le> 2 ^ 56
           \<and> (vw = 0 \<longleftrightarrow> Max (fst ` set pixels) = Min (fst ` set pixels))
           \<and> (vh = 0 \<longleftrightarrow> Max (snd ` set pixels) = Min (snd ` set pixels))
           \<and> \<not> (vw = 0 \<and> vh = 0)
           \<and> 1 \<le> unat (naturalHeight img)"
proof -
  have ne: "pixels \<noteq> []" using assms(2) by auto
  then obtain p where p: "p \<in> set pixels" by (cases pixels) auto
  obtain px py where pp: "p = (px, py)" by (cases p)
  have inside: "px < canvasWidth img \<and> py < canvasHeight img"
    using p unfolding pp assms(1) by (rule skinPixels_inside)
  have cw1: "1 \<le> canvasWidth img" using inside by linarith
  have ch1: "1 \<le> canvasHeight img" using inside by linarith
  note dims = canvasWidth_pos [OF cw1] canvasHeight_pos [OF ch1]
  from scaleOf_Fin [OF dims]
  obtain s where "scaleOf img = Fin s \<and> 75 / 2 ^ 30 \<le> s \<and> s \<le> 300" ..
  then have s: "scaleOf img = Fin s" "75 / 2 ^ 30 \<le> s" "s \<le> 300" by simp_all
  have "(0::real) < 75 / 2 ^ 30" by simp
  with s(2) have spos: "0 < s" by linarith
  have fin: "finite (fst ` set pixels)" "finite (snd ` set pixels)" by simp_all
  have nex: "fst ` set pixels \<noteq> {}" "snd ` set pixels \<noteq> {}" using ne by simp_all
  have ordX: "Min (fst ` set pixels) \<le> Max (fst ` set pixels)"
    using fin(1) nex(1) by (simp add: Min_le_iff)
  have ordY: "Min (snd ` set pixels) \<le> Max (snd ` set pixels)"
    using fin(2) nex(2) by (simp add: Min_le_iff)
  have "Max (fst ` set pixels) \<in> fst ` set pixels" using fin(1) nex(1) by (rule Max_in)
  then have "Max (fst ` set pixels) < canvasWidth img"
    unfolding assms(1) by (auto dest: skinPixels_inside)
  with canvasWidth_less [of img] have upX: "Max (fst ` set pixels) < 2 ^ 32" by linarith
  have "Max (snd ` set pixels) \<in> snd ` set pixels" using fin(2) nex(2) by (rule Max_in)
  then have "Max (snd ` set pixels) < canvasHeight img"
    unfolding assms(1) by (auto dest: skinPixels_inside)
  with canvasHeight_less [of img] have upY: "Max (snd ` set pixels) < 2 ^ 32" by linarith
  have cand: "candidateBox (canvasWidth img) (canvasHeight img) (scaleOf img) pixels
      = boxOfBounds (Fin s) (Min (fst ` set pixels), Max (fst ` set pixels),
          Min (snd ` set pixels), Max (snd ` set pixels))"
    using ne skinPixels_bounds [of "canvasWidth img" "canvasHeight img" data]
    by (simp add: candidateBox_def s(1) assms(1))
  from boxOfBounds_shape [OF s(2,3) ordX upX ordY upY]
  obtain vx vy vw vh where "boxOfBounds (Fin s) (Min (fst ` set pixels), Max (fst ` set pixels),
          Min (snd ` set pixels), Max (snd ` set pixels))
             = \<lparr> x = Fin vx, y = Fin vy, width = Fin vw, height = Fin vh \<rparr>
           \<and> 0 \<le> vx \<and> 0 \<le> vy \<and> 0 \<le> vw \<and> 0 \<le> vh \<and> vy \<le> 2 ^ 56 \<and> vh \<le> 2 ^ 56
           \<and> (vw = 0 \<longleftrightarrow> Max (fst ` set pixels) = Min (fst ` set pixels))
           \<and> (vh = 0 \<longleftrightarrow> Max (snd ` set pixels) = Min (snd ` set pixels))"
    by (elim exE)
  then have v: "boxOfBounds (Fin s) (Min (fst ` set pixels), Max (fst ` set pixels),
          Min (snd ` set pixels), Max (snd ` set pixels))
             = \<lparr> x = Fin vx, y = Fin vy, width = Fin vw, height = Fin vh \<rparr>"
      "0 \<le> vx" "0 \<le> vy" "0 \<le> vw" "0 \<le> vh" "vy \<le> 2 ^ 56" "vh \<le> 2 ^ 56"
      "vw = 0 \<longleftrightarrow> Max (fst ` set pixels) = Min (fst ` set pixels)"
      "vh = 0 \<longleftrightarrow> Max (snd ` set pixels) = Min (snd ` set pixels)"
    by blast+
  have "distinct pixels" unfolding assms(1) by (rule skinPixels_distinct)
  from not_one_point [OF this assms(2)] have nz: "\<not> (vw = 0 \<and> vh = 0)"
    unfolding v(8) v(9) .
  have "scaleOf img = Fin s \<and> 0 < s
           \<and> candidateBox (canvasWidth img) (canvasHeight img) (scaleOf img) pixels
               = \<lparr> x = Fin vx, y = Fin vy, width = Fin vw, height = Fin vh \<rparr>
           \<and> 0 \<le> vx \<and> 0 \<le> vy \<and> 0 \<le> vw \<and> 0 \<le> vh \<and> vy \<le> 2 ^ 56 \<and> vh \<le> 2 ^ 56
           \<and> (vw = 0 \<longleftrightarrow> Max (fst ` set pixels) = Min (fst ` set pixels))
           \<and> (vh = 0 \<longleftrightarrow> Max (snd ` set pixels) = Min (snd ` set pixels))
           \<and> \<not> (vw = 0 \<and> vh = 0)
           \<and> 1 \<le> unat (naturalHeight img)"
    using s(1) spos cand v nz dims(2) by (intro conjI) simp_all
  then show ?thesis by (intro exI)
qed

section \<open>The check of the proportions\<close>


lemma lit_half: "lit (1 / 2) = Fin (1 / 2)"
proof -
  have "fl (1 / 2) = Fin (rnd (1 / 2))" by (intro fl_finite [where n = 0]) simp_all
  moreover have "rnd (1 / 2) = 1 / 2" using rnd_inv_pow2 [of 1] by simp
  ultimately show ?thesis by (simp add: lit_def)
qed

lemma lit_three_halves: "lit (3 / 2) = Fin (3 / 2)"
proof -
  have "fl (3 / 2) = Fin (rnd (3 / 2))" by (intro fl_finite [where n = 1]) simp_all
  moreover have "rnd (3 / 2) = 3 / 2"
    using rnd_exact [of "- 1" 3] by (simp add: power_int_minus_divide)
  ultimately show ?thesis by (simp add: lit_def)
qed

lemma outside_interval:
  "a \<noteq> NaN \<Longrightarrow> (flt a (Fin l) \<or> fgt a (Fin u)) \<longleftrightarrow> \<not> (fle (Fin l) a \<and> fle a (Fin u))"
  by (cases a) (auto simp: fle_def fgt_def)

lemma fdiv_Fin_not_NaN: "\<not> (a = 0 \<and> b = 0) \<Longrightarrow> fdiv (Fin a) (Fin b) \<noteq> NaN"
  by (auto simp: signed_inf_def fl_not_NaN)

lemma validateBox_None_iff:
  assumes "fdiv (width fb) (height fb) \<noteq> NaN"
  shows "validateBox fb = None \<longleftrightarrow>
     \<not> (fle (lit (5 / 10)) (fdiv (width fb) (height fb))
        \<and> fle (fdiv (width fb) (height fb)) (lit (15 / 10)))"
  using outside_interval [OF assms, of "1 / 2" "3 / 2"]
  by (simp add: validateBox_def Let_def lit_half lit_three_halves)

lemma canvas_run:
  assumes "context2d pf"
    and "getImageData pf (canvasWidth img) (canvasHeight img) = Inr data"
    and "100 \<le> length (skinPixels (canvasWidth img) (canvasHeight img) data)"
  shows "detectFaceWithCanvas pf img =
     Inr (validateBox (candidateBox (canvasWidth img) (canvasHeight img) (scaleOf img)
            (skinPixels (canvasWidth img) (canvasHeight img) data)))"
  using assms by (simp add: detectFaceWithCanvas_def Let_def)

lemma canvas_Some:
  assumes "detectFaceWithCanvas pf img = Inr (Some fb)"
  shows "\<exists>data. context2d pf
     \<and> getImageData pf (canvasWidth img) (canvasHeight img) = Inr data
     \<and> 100 \<le> length (skinPixels (canvasWidth img) (canvasHeight img) data)
     \<and> validateBox (candidateBox (canvasWidth img) (canvasHeight img) (scaleOf img)
            (skinPixels (canvasWidth img) (canvasHeight img) data)) = Some fb"
  using assms
  by (auto simp: detectFaceWithCanvas_def Let_def split: if_splits sum.splits)

section \<open>Rasters of one colour, scanned\<close>


lemmas num_eval = rnd_def ulp_exp_def flog2_def round_even_def fl_def lit_def num_def
  powi2_eval bitlen_1 bitlen_Bit0 bitlen_Bit1 Let_def fsub_def fgt_def fge_def fle_def
  signed_inf_def

lemma nth_concat_replicate:
  "i < n * length xs \<Longrightarrow> concat (replicate n xs) ! i = xs ! (i mod length xs)"
proof (induction n arbitrary: i)
  case 0
  then show ?case by simp
next
  case (Suc n)
  show ?case
  proof (cases "i < length xs")
    case True
    then show ?thesis by (simp add: nth_append)
  next
    case False
    then have "i - length xs < n * length xs" using Suc.prems by simp
    from Suc.IH [OF this] False show ?thesis by (simp add: nth_append le_mod_geq)
  qed
qed

lemma length_concat_replicate: "length (concat (replicate n xs)) = n * length xs"
  by (induction n) simp_all

lemma sample_solid:
  assumes "k < n" "c < 4"
  shows "sample (concat (replicate n [r, g, b, a])) (k * 4 + c) = num (unat ([r, g, b, a] ! c))"
proof -
  have "k * 4 + c < n * 4" using assms by simp
  then show ?thesis
    using assms(2) nth_concat_replicate [of "k * 4 + c" n "[r, g, b, a]"]
    by (simp add: sample_def length_concat_replicate)
qed

lemma pixel_index: "col < cw \<Longrightarrow> row < ch \<Longrightarrow> row * cw + col < cw * (ch :: nat)"
proof -
  assume a: "col < cw" "row < ch"
  then have "row * cw + col < row * cw + cw" by simp
  also have "\<dots> = Suc row * cw" by simp
  also have "\<dots> \<le> ch * cw" using a(2) by (intro mult_le_mono1) simp
  finally show ?thesis by (simp add: mult.commute)
qed

lemma solid_samples:
  assumes "col < cw" "row < ch"
  shows "sample (concat (replicate (cw * ch) [r, g, b, a])) ((row * cw + col) * 4) = num (unat r)"
    and "sample (concat (replicate (cw * ch) [r, g, b, a])) ((row * cw + col) * 4 + 1) = num (unat g)"
    and "sample (concat (replicate (cw * ch) [r, g, b, a])) ((row * cw + col) * 4 + 2) = num (unat b)"
  using sample_solid [OF pixel_index [OF assms], of 0 r g b a]
    sample_solid [OF pixel_index [OF assms], of 1 r g b a]
    sample_solid [OF pixel_index [OF assms], of 2 r g b a]
  by simp_all

lemma solid_skin:
  assumes "isSkinTone (num (unat r)) (num (unat g)) (num (unat b))"
  shows "length (skinPixels cw ch (concat (replicate (cw * ch) [r, g, b, a]))) = cw * ch"
    and "set (skinPixels cw ch (concat (replicate (cw * ch) [r, g, b, a]))) = {..<cw} \<times> {..<ch}"
proof -
  show "length (skinPixels cw ch (concat (replicate (cw * ch) [r, g, b, a]))) = cw * ch"
    unfolding skinPixels_def Let_def
    by (rule scan_all) (simp only: solid_samples assms)
  have "(px, py) \<in> set (skinPixels cw ch (concat (replicate (cw * ch) [r, g, b, a])))
      \<longleftrightarrow> px < cw \<and> py < ch" for px py
  proof (cases "px < cw \<and> py < ch")
    case True
    then have inside: "px < cw" "py < ch" by simp_all
    show ?thesis
      unfolding skinPixels_mem solid_samples [OF inside] using inside assms by simp
  next
    case False
    then show ?thesis unfolding skinPixels_mem by blast
  qed
  then show "set (skinPixels cw ch (concat (replicate (cw * ch) [r, g, b, a])))
      = {..<cw} \<times> {..<ch}"
    by auto
qed

lemma solid_not_skin:
  assumes "\<not> isSkinTone (num (unat r)) (num (unat g)) (num (unat b))"
  shows "skinPixels cw ch (concat (replicate (cw * ch) [r, g, b, a])) = []"
  unfolding skinPixels_def Let_def
  by (rule scan_none) (simp only: solid_samples assms not_False_eq_True)

lemma Min_lessThan: "0 < n \<Longrightarrow> Min {..<n::nat} = 0"
  by (rule Min_eqI) simp_all

lemma Max_lessThan: "0 < n \<Longrightarrow> Max {..<n::nat} = n - 1"
  by (rule Max_eqI) auto

lemma full_grid_extent:
  assumes "set ps = {..<cw::nat} \<times> {..<ch::nat}" "0 < cw" "0 < ch"
  shows "Min (fst ` set ps) = 0" "Max (fst ` set ps) = cw - 1"
    "Min (snd ` set ps) = 0" "Max (snd ` set ps) = ch - 1"
proof -
  have "fst ` set ps = {..<cw}" "snd ` set ps = {..<ch}"
    using assms by (auto simp: image_iff)
  then show "Min (fst ` set ps) = 0" "Max (fst ` set ps) = cw - 1"
    "Min (snd ` set ps) = 0" "Max (snd ` set ps) = ch - 1"
    using assms(2,3) by (simp_all add: Min_lessThan Max_lessThan)
qed

lemma skin_sample_colour: "isSkinTone (num 200) (num 150) (num 120)"
  by (simp add: isSkinTone_def num_eval)

lemma blue_sample_colour: "\<not> isSkinTone (num 0) (num 0) (num 255)"
  by (simp add: isSkinTone_def num_eval)

lemma portrait_canvas:
  "scaleOf \<lparr> naturalWidth = 150, naturalHeight = 300 \<rparr> = Fin 1"
  "canvasWidth \<lparr> naturalWidth = 150, naturalHeight = 300 \<rparr> = 150"
  "canvasHeight \<lparr> naturalWidth = 150, naturalHeight = 300 \<rparr> = 300"
  by (simp_all add: canvasWidth_def canvasHeight_def scaleOf_def num_eval)

lemma square_canvas:
  "scaleOf \<lparr> naturalWidth = 300, naturalHeight = 300 \<rparr> = Fin 1"
  "canvasWidth \<lparr> naturalWidth = 300, naturalHeight = 300 \<rparr> = 300"
  "canvasHeight \<lparr> naturalWidth = 300, naturalHeight = 300 \<rparr> = 300"
  by (simp_all add: canvasWidth_def canvasHeight_def scaleOf_def num_eval)

lemma strip_canvas:
  "scaleOf \<lparr> naturalWidth = 300, naturalHeight = 1 \<rparr> = Fin 1"
  "canvasWidth \<lparr> naturalWidth = 300, naturalHeight = 1 \<rparr> = 300"
  "canvasHeight \<lparr> naturalWidth = 300, naturalHeight = 1 \<rparr> = 1"
  by (simp_all add: canvasWidth_def canvasHeight_def scaleOf_def num_eval)

section \<open>A portrait image\<close>


lemma solid_candidate:
  assumes "isSkinTone (num (unat r)) (num (unat g)) (num (unat b))" "0 < cw" "0 < ch"
  shows "candidateBox cw ch sc (skinPixels cw ch (concat (replicate (cw * ch) [r, g, b, a])))
     = boxOfBounds sc (0, cw - 1, 0, ch - 1)"
proof -
  have "0 < cw * ch" using assms(2,3) by simp
  then have ne: "skinPixels cw ch (concat (replicate (cw * ch) [r, g, b, a])) \<noteq> []"
    using solid_skin(1) [OF assms(1), of cw ch a] by auto
  show ?thesis
    unfolding candidateBox_def skinPixels_bounds [OF ne]
      full_grid_extent [OF solid_skin(2) [OF assms(1)] assms(2,3)]
    by (rule refl)
qed

lemma skin_bytes: "isSkinTone (num (unat (200 :: 8 word))) (num (unat (150 :: 8 word)))
    (num (unat (120 :: 8 word)))"
  using skin_sample_colour by simp

lemma blue_bytes: "\<not> isSkinTone (num (unat (0 :: 8 word))) (num (unat (0 :: 8 word)))
    (num (unat (255 :: 8 word)))"
  using blue_sample_colour by simp

lemma portrait_read:
  "getImageData skinFallback (canvasWidth portrait) (canvasHeight portrait)
     = Inr (concat (replicate (150 * 300) [200, 150, 120, 255]))"
  unfolding portrait_canvas by (simp only: platform.simps solidImageData_def)

lemma portrait_count:
  "100 \<le> length (skinPixels (canvasWidth portrait) (canvasHeight portrait)
      (concat (replicate (150 * 300) [200, 150, 120, 255])))"
  unfolding portrait_canvas solid_skin(1) [OF skin_bytes] by simp

lemma portrait_extent:
  "Min (fst ` set (skinPixels (canvasWidth portrait) (canvasHeight portrait)
      (concat (replicate (150 * 300) [200, 150, 120, 255])))) = 0"
  "Max (fst ` set (skinPixels (canvasWidth portrait) (canvasHeight portrait)
      (concat (replicate (150 * 300) [200, 150, 120, 255])))) = 149"
  "Min (snd ` set (skinPixels (canvasWidth portrait) (canvasHeight portrait)
      (concat (replicate (150 * 300) [200, 150, 120, 255])))) = 0"
  "Max (snd ` set (skinPixels (canvasWidth portrait) (canvasHeight portrait)
      (concat (replicate (150 * 300) [200, 150, 120, 255])))) = 299"
  unfolding portrait_canvas
  using full_grid_extent [OF solid_skin(2) [OF skin_bytes, of 150 300 255]]
  by simp_all

lemma portrait_box:
  "boxOfBounds (Fin 1) (0, 149, 0, 299) =
     \<lparr> x = Fin 0, y = Fin 0, width = Fin 149,
       height = Fin (6312076352736461 / 35184372088832) \<rparr>"
  by (simp add: boxOfBounds_def num_eval)

lemma portrait_valid:
  "validateBox \<lparr> x = Fin 0, y = Fin 0, width = Fin 149,
       height = Fin (6312076352736461 / 35184372088832) \<rparr>
   = Some \<lparr> x = Fin 0, y = Fin 0, width = Fin 149,
       height = Fin (6312076352736461 / 35184372088832) \<rparr>"
  by (simp add: validateBox_def num_eval)

lemma portrait_run:
  "detectFaceWithCanvas skinFallback portrait
     = Inr (Some \<lparr> x = Fin 0, y = Fin 0, width = Fin 149,
         height = Fin (6312076352736461 / 35184372088832) \<rparr>)"
proof -
  have "candidateBox (canvasWidth portrait) (canvasHeight portrait) (scaleOf portrait)
      (skinPixels (canvasWidth portrait) (canvasHeight portrait)
        (concat (replicate (150 * 300) [200, 150, 120, 255])))
     = boxOfBounds (Fin 1) (0, 150 - 1, 0, 300 - 1)"
    unfolding portrait_canvas by (rule solid_candidate [OF skin_bytes]) simp_all
  also have "\<dots> = \<lparr> x = Fin 0, y = Fin 0, width = Fin 149,
       height = Fin (6312076352736461 / 35184372088832) \<rparr>"
    using portrait_box by simp
  finally have cand: "candidateBox (canvasWidth portrait) (canvasHeight portrait)
      (scaleOf portrait)
      (skinPixels (canvasWidth portrait) (canvasHeight portrait)
        (concat (replicate (150 * 300) [200, 150, 120, 255])))
     = \<lparr> x = Fin 0, y = Fin 0, width = Fin 149,
       height = Fin (6312076352736461 / 35184372088832) \<rparr>" .
  have "detectFaceWithCanvas skinFallback portrait
     = Inr (validateBox (candidateBox (canvasWidth portrait) (canvasHeight portrait)
         (scaleOf portrait)
         (skinPixels (canvasWidth portrait) (canvasHeight portrait)
           (concat (replicate (150 * 300) [200, 150, 120, 255])))))"
    by (rule canvas_run [OF _ portrait_read portrait_count]) simp
  then show ?thesis unfolding cand portrait_valid .
qed

section \<open>A blue, a square and a one-row image\<close>


lemma blue_read:
  "getImageData blueFallback (canvasWidth portrait) (canvasHeight portrait)
     = Inr (concat (replicate (150 * 300) [0, 0, 255, 255]))"
  unfolding portrait_canvas by (simp only: platform.simps solidImageData_def)

lemma blue_count:
  "length (skinPixels (canvasWidth portrait) (canvasHeight portrait)
      (concat (replicate (150 * 300) [0, 0, 255, 255]))) < 100"
  unfolding portrait_canvas solid_not_skin [OF blue_bytes] by simp

lemma square_read:
  "getImageData skinFallback (canvasWidth square) (canvasHeight square)
     = Inr (concat (replicate (300 * 300) [200, 150, 120, 255]))"
  unfolding square_canvas by (simp only: platform.simps solidImageData_def)

lemma square_count:
  "100 \<le> length (skinPixels (canvasWidth square) (canvasHeight square)
      (concat (replicate (300 * 300) [200, 150, 120, 255])))"
  unfolding square_canvas solid_skin(1) [OF skin_bytes] by simp

lemma square_candidate:
  "candidateBox (canvasWidth square) (canvasHeight square) (scaleOf square)
      (skinPixels (canvasWidth square) (canvasHeight square)
        (concat (replicate (300 * 300) [200, 150, 120, 255])))
     = \<lparr> x = Fin 0, y = Fin 0, width = Fin 299,
         height = Fin (6312076352736461 / 35184372088832) \<rparr>"
proof -
  have "candidateBox (canvasWidth square) (canvasHeight square) (scaleOf square)
      (skinPixels (canvasWidth square) (canvasHeight square)
        (concat (replicate (300 * 300) [200, 150, 120, 255])))
     = boxOfBounds (Fin 1) (0, 300 - 1, 0, 300 - 1)"
    unfolding square_canvas by (rule solid_candidate [OF skin_bytes]) simp_all
  also have "\<dots> = \<lparr> x = Fin 0, y = Fin 0, width = Fin 299,
         height = Fin (6312076352736461 / 35184372088832) \<rparr>"
    by (simp add: boxOfBounds_def num_eval)
  finally show ?thesis .
qed

lemma square_ratio:
  "\<not> (fle (lit (5 / 10)) (fdiv (Fin 299) (Fin (6312076352736461 / 35184372088832)))
      \<and> fle (fdiv (Fin 299) (Fin (6312076352736461 / 35184372088832))) (lit (15 / 10)))"
  by (simp add: num_eval)

lemma strip_read:
  "getImageData skinFallback (canvasWidth strip) (canvasHeight strip)
     = Inr (concat (replicate (300 * 1) [200, 150, 120, 255]))"
  unfolding strip_canvas by (simp only: platform.simps solidImageData_def)

lemma strip_count:
  "100 \<le> length (skinPixels (canvasWidth strip) (canvasHeight strip)
      (concat (replicate (300 * 1) [200, 150, 120, 255])))"
  unfolding strip_canvas solid_skin(1) [OF skin_bytes] by simp

lemma strip_row:
  "Max (snd ` set (skinPixels (canvasWidth strip) (canvasHeight strip)
      (concat (replicate (300 * 1) [200, 150, 120, 255]))))
   = Min (snd ` set (skinPixels (canvasWidth strip) (canvasHeight strip)
      (concat (replicate (300 * 1) [200, 150, 120, 255]))))"
  unfolding strip_canvas
  using full_grid_extent(3,4) [OF solid_skin(2) [OF skin_bytes, of 300 1 255]]
  by simp

lemma strip_candidate:
  "candidateBox (canvasWidth strip) (canvasHeight strip) (scaleOf strip)
      (skinPixels (canvasWidth strip) (canvasHeight strip)
        (concat (replicate (300 * 1) [200, 150, 120, 255])))
     = \<lparr> x = Fin 0, y = Fin 0, width = Fin 299, height = Fin 0 \<rparr>"
proof -
  have "candidateBox (canvasWidth strip) (canvasHeight strip) (scaleOf strip)
      (skinPixels (canvasWidth strip) (canvasHeight strip)
        (concat (replicate (300 * 1) [200, 150, 120, 255])))
     = boxOfBounds (Fin 1) (0, 300 - 1, 0, 1 - 1)"
    unfolding strip_canvas by (rule solid_candidate [OF skin_bytes]) simp_all
  also have "\<dots> = \<lparr> x = Fin 0, y = Fin 0, width = Fin 299, height = Fin 0 \<rparr>"
    by (simp add: boxOfBounds_def num_eval)
  finally show ?thesis .
qed

section \<open>The rounded channels of the classifier\<close>












section \<open>The classifier between the strict and the closed exact rule\<close>






section \<open>Samples of luma exactly 80\<close>













section \<open>The landmarks of a fallback box\<close>


lemma lit_hundred: "lit 100 = Fin 100"
  by (simp add: num_eval)

lemma lit_eye_ratio: "\<exists>k. lit (35 / 100) = Fin k \<and> 0 \<le> k \<and> k \<le> 1"
proof -
  have "fl (35 / 100) = Fin (rnd (35 / 100))" by (intro fl_finite [where n = 0]) simp_all
  moreover have "0 \<le> rnd (35 / 100)" by (intro rnd_nonneg) simp
  moreover have "rnd (35 / 100) \<le> 2 ^ 0" by (intro rnd_le_pow2) simp
  ultimately show ?thesis unfolding lit_def by (intro exI conjI) simp_all
qed

lemma landmarks_ordered:
  fixes vy vh :: real and n :: nat
  assumes "0 \<le> vy" "vy \<le> 2 ^ 56" "0 \<le> vh" "vh \<le> 2 ^ 56" "rnd vh = vh" "1 \<le> n"
  shows "\<exists>e c. eyeLineOf \<lparr> x = vx, y = Fin vy, width = vw, height = Fin vh \<rparr> (num n) = Fin e
           \<and> chinOf \<lparr> x = vx, y = Fin vy, width = vw, height = Fin vh \<rparr> (num n) = Fin c
           \<and> 0 \<le> e \<and> e \<le> c"
proof -
  from lit_eye_ratio obtain k where "lit (35 / 100) = Fin k \<and> 0 \<le> k \<and> k \<le> 1" ..
  then have k: "lit (35 / 100) = Fin k" "0 \<le> k" "k \<le> 1" by simp_all
  have N: "1 \<le> (of_nat n :: real)" using assms(6) by simp
  define a where "a = rnd (vh * k)"
  have a0: "0 \<le> vh * k" using assms(3) k(2) by simp
  have a_le: "vh * k \<le> vh" using assms(3) k(3) by (simp add: mult_left_le)
  then have a1: "vh * k \<le> 2 ^ 56" using assms(4) by linarith
  have fa: "fmul (Fin vh) (Fin k) = Fin a" using fl_finite [OF a0 a1] by (simp add: a_def)
  have an: "0 \<le> a" unfolding a_def using a0 by (rule rnd_nonneg)
  have al: "a \<le> vh" using rnd_mono [OF a_le] by (simp add: a_def assms(5))
  define b1 where "b1 = rnd (vy + a)"
  define b2 where "b2 = rnd (vy + vh)"
  have s0: "0 \<le> vy + a" "0 \<le> vy + vh" using assms(1,3) an by simp_all
  have s1: "vy + a \<le> 2 ^ 57" "vy + vh \<le> 2 ^ 57" using assms(2,4) al by simp_all
  have fb1: "fadd (Fin vy) (Fin a) = Fin b1" using fl_finite [OF s0(1) s1(1)] by (simp add: b1_def)
  have fb2: "fadd (Fin vy) (Fin vh) = Fin b2" using fl_finite [OF s0(2) s1(2)] by (simp add: b2_def)
  have b0: "0 \<le> b1" "0 \<le> b2" unfolding b1_def b2_def using s0 by (simp_all add: rnd_nonneg)
  have bl: "b1 \<le> b2" unfolding b1_def b2_def using al by (intro rnd_mono) simp
  have bu: "b2 \<le> 2 ^ 57" unfolding b2_def using s1(2) by (rule rnd_le_pow2)
  define d1 where "d1 = rnd (b1 / of_nat n)"
  define d2 where "d2 = rnd (b2 / of_nat n)"
  have q0: "0 \<le> b1 / of_nat n" "0 \<le> b2 / of_nat n" using b0 by simp_all
  have ql: "b1 / of_nat n \<le> b2 / of_nat n" using bl by (simp add: divide_right_mono)
  have "b2 / of_nat n \<le> b2 / 1" using N b0(2) by (intro divide_left_mono) simp_all
  then have q1: "b2 / of_nat n \<le> 2 ^ 57" using bu by simp
  then have q1': "b1 / of_nat n \<le> 2 ^ 57" using ql by linarith
  have nz: "(of_nat n :: real) \<noteq> 0" using N by simp
  have fd1: "fdiv (Fin b1) (Fin (of_nat n)) = Fin d1"
    using fl_finite [OF q0(1) q1'] nz by (simp add: d1_def)
  have fd2: "fdiv (Fin b2) (Fin (of_nat n)) = Fin d2"
    using fl_finite [OF q0(2) q1] nz by (simp add: d2_def)
  have d0: "0 \<le> d1" "0 \<le> d2" unfolding d1_def d2_def using q0 by (simp_all add: rnd_nonneg)
  have dl: "d1 \<le> d2" unfolding d1_def d2_def using ql by (rule rnd_mono)
  have du: "d2 \<le> 2 ^ 57" unfolding d2_def using q1 by (rule rnd_le_pow2)
  define e where "e = rnd (d1 * 100)"
  define c where "c = rnd (d2 * 100)"
  have m0: "0 \<le> d1 * 100" "0 \<le> d2 * 100" using d0 by simp_all
  have ml: "d1 * 100 \<le> d2 * 100" using dl by simp
  have "d2 * 100 \<le> 2 ^ 57 * 2 ^ 7" using du d0(2) by (intro mult_mono) simp_all
  then have m1: "d2 * 100 \<le> 2 ^ 64" by simp
  then have m1': "d1 * 100 \<le> 2 ^ 64" using ml by linarith
  have fe: "fmul (Fin d1) (Fin 100) = Fin e" using fl_finite [OF m0(1) m1'] by (simp add: e_def)
  have fc: "fmul (Fin d2) (Fin 100) = Fin c" using fl_finite [OF m0(2) m1] by (simp add: c_def)
  have e0: "0 \<le> e" unfolding e_def using m0(1) by (rule rnd_nonneg)
  have ec: "e \<le> c" unfolding e_def c_def using ml by (rule rnd_mono)
  have 1: "eyeLineOf \<lparr> x = vx, y = Fin vy, width = vw, height = Fin vh \<rparr> (num n) = Fin e"
    unfolding eyeLineOf_def FaceBox.select_convs num_def k(1) fa fb1 fd1 lit_hundred fe
    by (rule refl)
  have 2: "chinOf \<lparr> x = vx, y = Fin vy, width = vw, height = Fin vh \<rparr> (num n) = Fin c"
    unfolding chinOf_def FaceBox.select_convs num_def fb2 fd2 lit_hundred fc
    by (rule refl)
  from 1 2 e0 ec show ?thesis by (intro exI conjI)
qed

lemma boxOfBounds_height_rnd: "height (boxOfBounds sc bs) = Fin h \<Longrightarrow> rnd h = h"
  by (cases bs) (auto simp: boxOfBounds_def Let_def intro: fdiv_Fin_rnd)

lemma validateBox_Some: "validateBox c = Some fb \<Longrightarrow> fb = c"
  by (simp add: validateBox_def Let_def split: if_splits)

lemma detectFace_Some:
  assumes "fst (detectFace pf img st) = Inr (Some res)"
  shows "\<exists>fb. findFaceBox pf img = Inr (Some fb)
     \<and> res = \<lparr> face = Some fb,
               eyeLineY = Some (eyeLineOf fb (num (unat (naturalHeight img)))),
               chinY = Some (chinOf fb (num (unat (naturalHeight img)))) \<rparr>"
  using assms by (auto simp: detectFace_def Let_def split: sum.splits option.splits)


section \<open>The orchestrator's outcome\<close>

text \<open>
  C9. After every \<^verbatim>\<open>detectFace\<close> invocation has settled, whether it produced a result, no
  detection or met a fault, the busy indicator \<open>isDetecting\<close> is false again.
\<close>

theorem detectFace_returns_to_idle:
  "isDetecting (snd (detectFace pf img st)) = False"
  by (simp add: detectFace_def Let_def split: sum.split option.split)

text \<open>
  C7. \<^verbatim>\<open>detectFace\<close> never rejects: its promise always resolves. Without a 2D context the
  canvas fallback resolves to no detection. A fault raised while looking for the box (a
  rejecting platform detector, a read-back that fails) is caught: it is logged, the
  cached result becomes \<open>None\<close>, the busy flag is cleared and \<open>None\<close> is returned, as for a
  clean run that found no face.
\<close>

theorem detectFace_never_throws:
  "(\<exists>res. fst (detectFace pf img st) = Inr res)
   \<and> (\<not> context2d pf \<longrightarrow> detectFaceWithCanvas pf img = Inr None)
   \<and> (\<forall>e. faceDetector pf = Some (Inl e) \<longrightarrow> findFaceBox pf img = Inl e)
   \<and> (\<forall>e. faceDetector pf = None \<and> context2d pf
          \<and> getImageData pf (canvasWidth img) (canvasHeight img) = Inl e
        \<longrightarrow> findFaceBox pf img = Inl e)
   \<and> (\<forall>e. findFaceBox pf img = Inl e \<longrightarrow>
          detectFace pf img st =
            (Inr None,
             st\<lparr> isDetecting := False, detectionResult := None, console := console st @ [e] \<rparr>))
   \<and> (findFaceBox pf img = Inr None \<longrightarrow>
          detectFace pf img st = (Inr None, st\<lparr> isDetecting := False, detectionResult := None \<rparr>))"
  by (auto simp add: detectFace_def detectFaceWithCanvas_def findFaceBox_def Let_def
      split: sum.split option.split)

theorem detectFace_never_throws_witness:
  "detectFaceWithCanvas
     \<lparr> faceDetector = Some (Inl DetectorRejected), context2d = False,
       getImageData = (\<lambda>w h. Inl RasterUnreadable) \<rparr>
     \<lparr> naturalWidth = 640, naturalHeight = 480 \<rparr> = Inr None
   \<and> detectFace
     \<lparr> faceDetector = Some (Inl DetectorRejected), context2d = False,
       getImageData = (\<lambda>w h. Inl RasterUnreadable) \<rparr>
     \<lparr> naturalWidth = 640, naturalHeight = 480 \<rparr>
     \<lparr> isDetecting = False, detectionResult = None, console = [] \<rparr>
     = (Inr None, \<lparr> isDetecting = False, detectionResult = None, console = [DetectorRejected] \<rparr>)"
  using detectFace_never_throws
    [of "\<lparr> faceDetector = Some (Inl DetectorRejected), context2d = False,
           getImageData = (\<lambda>w h. Inl RasterUnreadable) \<rparr>"
        "\<lparr> naturalWidth = 640, naturalHeight = 480 \<rparr>"
        "\<lparr> isDetecting = False, detectionResult = None, console = [] \<rparr>"]
  by simp

section \<open>The canvas fallback, claim by claim\<close>

text \<open>
  C2. When the scan collects at least 100 skin coordinates, the box handed to the check of
  the proportions is exactly \<open>x = minX / scale\<close>, \<open>y = minY / scale\<close>,
  \<open>width = (maxX - minX) / scale\<close> and \<open>height = 0.6 * (maxY - minY) / scale\<close>, where
  \<open>minX\<close>, \<open>maxX\<close>, \<open>minY\<close>, \<open>maxY\<close> are the least and greatest coordinates among the
  collected pixels and \<open>scale\<close> is the downscale factor of the sampler; every operation is
  the rounded one of the source.
\<close>

theorem candidate_box_formula:
  assumes "context2d pf"
    and "getImageData pf (canvasWidth img) (canvasHeight img) = Inr data"
    and "pixels = skinPixels (canvasWidth img) (canvasHeight img) data"
    and "100 \<le> length pixels"
  shows "detectFaceWithCanvas pf img =
     Inr (validateBox
       \<lparr> x = fdiv (num (Min (fst ` set pixels))) (scaleOf img),
         y = fdiv (num (Min (snd ` set pixels))) (scaleOf img),
         width = fdiv (fsub (num (Max (fst ` set pixels))) (num (Min (fst ` set pixels))))
                   (scaleOf img),
         height = fdiv (fmul (lit (6 / 10))
                     (fsub (num (Max (snd ` set pixels))) (num (Min (snd ` set pixels)))))
                   (scaleOf img) \<rparr>)"
proof -
  have ne: "skinPixels (canvasWidth img) (canvasHeight img) data \<noteq> []"
    using assms(3,4) by auto
  have "candidateBox (canvasWidth img) (canvasHeight img) (scaleOf img) pixels =
       \<lparr> x = fdiv (num (Min (fst ` set pixels))) (scaleOf img),
         y = fdiv (num (Min (snd ` set pixels))) (scaleOf img),
         width = fdiv (fsub (num (Max (fst ` set pixels))) (num (Min (fst ` set pixels))))
                   (scaleOf img),
         height = fdiv (fmul (lit (6 / 10))
                     (fsub (num (Max (snd ` set pixels))) (num (Min (snd ` set pixels)))))
                   (scaleOf img) \<rparr>"
    unfolding candidateBox_def assms(3) skinPixels_bounds [OF ne] boxOfBounds_def Let_def prod.case
    by (simp only: fmul_commute)
  then show ?thesis
    using canvas_run [OF assms(1,2)] assms(3,4) by simp
qed

theorem candidate_box_formula_witness:
  "detectFaceWithCanvas skinFallback portrait =
     Inr (validateBox
       \<lparr> x = fdiv (num 0) (Fin 1),
         y = fdiv (num 0) (Fin 1),
         width = fdiv (fsub (num 149) (num 0)) (Fin 1),
         height = fdiv (fmul (lit (6 / 10)) (fsub (num 299) (num 0))) (Fin 1) \<rparr>)"
  using candidate_box_formula [OF _ portrait_read refl portrait_count,
      unfolded portrait_extent, unfolded portrait_canvas]
  by simp

text \<open>
  C4. When the scan classifies fewer than 100 pixels as skin-like the fallback resolves
  to no detection, and with no platform detector the caller receives \<open>None\<close> (and \<open>None\<close>
  is cached).
\<close>

theorem too_few_pixels:
  assumes "context2d pf"
    and "getImageData pf (canvasWidth img) (canvasHeight img) = Inr data"
    and "length (skinPixels (canvasWidth img) (canvasHeight img) data) < 100"
  shows "detectFaceWithCanvas pf img = Inr None
     \<and> (faceDetector pf = None \<longrightarrow>
          detectFace pf img st =
            (Inr None, st\<lparr> isDetecting := False, detectionResult := None \<rparr>))"
  using assms by (simp add: detectFaceWithCanvas_def detectFace_def findFaceBox_def Let_def)

theorem too_few_pixels_witness:
  "detectFaceWithCanvas blueFallback portrait = Inr None
   \<and> detectFace blueFallback portrait idle = (Inr None, idle)"
  using too_few_pixels [OF _ blue_read blue_count, of idle] by simp

text \<open>
  C5. A candidate box of the fallback whose aspect ratio \<open>width / height\<close> does not lie in
  \<open>[0.5, 1.5]\<close> makes the fallback resolve to no detection; nothing else is tried. A box
  of width 10 and height 100 is rejected by the check.
\<close>

theorem implausible_box_rejected:
  assumes "context2d pf"
    and "getImageData pf (canvasWidth img) (canvasHeight img) = Inr data"
    and "pixels = skinPixels (canvasWidth img) (canvasHeight img) data"
    and "100 \<le> length pixels"
    and "c = candidateBox (canvasWidth img) (canvasHeight img) (scaleOf img) pixels"
    and "\<not> (fle (lit (5 / 10)) (fdiv (width c) (height c))
           \<and> fle (fdiv (width c) (height c)) (lit (15 / 10)))"
  shows "detectFaceWithCanvas pf img = Inr None
     \<and> validateBox \<lparr> x = u, y = v, width = num 10, height = num 100 \<rparr> = None"
proof -
  have two: "2 \<le> length pixels" using assms(4) by simp
  from run_shape [OF assms(3) two]
  obtain s vx vy vw vh where
    "candidateBox (canvasWidth img) (canvasHeight img) (scaleOf img) pixels
               = \<lparr> x = Fin vx, y = Fin vy, width = Fin vw, height = Fin vh \<rparr>"
    "\<not> (vw = 0 \<and> vh = 0)"
    by auto
  then have "fdiv (width c) (height c) \<noteq> NaN"
    unfolding assms(5) by (simp only: FaceBox.simps fdiv_Fin_not_NaN not_False_eq_True)
  from validateBox_None_iff [OF this] assms(6) have "validateBox c = None" by simp
  then have 1: "detectFaceWithCanvas pf img = Inr None"
    using canvas_run [OF assms(1,2)] assms(3,4,5) by simp
  have "fl (1 / 10) = Fin (rnd (1 / 10))" by (intro fl_finite [where n = 0]) simp_all
  moreover have "rnd (1 / 10) \<le> rnd (1 / 2 ^ 2)" by (intro rnd_mono) simp
  then have "rnd (1 / 10) < 1 / 2" by (simp only: rnd_inv_pow2) simp
  ultimately have 2: "validateBox \<lparr> x = u, y = v, width = num 10, height = num 100 \<rparr> = None"
    by (simp add: validateBox_def Let_def num_def lit_half)
  from 1 2 show ?thesis by simp
qed

theorem implausible_box_rejected_witness:
  "detectFaceWithCanvas skinFallback square = Inr None
   \<and> validateBox \<lparr> x = Fin 0, y = Fin 0, width = num 10, height = num 100 \<rparr> = None"
  using implausible_box_rejected [OF _ square_read refl square_count refl,
      unfolded square_candidate, of "Fin 0" "Fin 0"] square_ratio
  by simp

text \<open>
  C6. When all collected pixels lie on one row (\<open>maxY = minY\<close>) the candidate height is
  zero, the division \<open>width / height\<close> yields \<open>+Infinity\<close> rather than a fault, and the
  fallback resolves to no detection.
\<close>

theorem degenerate_row_rejected:
  assumes "context2d pf"
    and "getImageData pf (canvasWidth img) (canvasHeight img) = Inr data"
    and "pixels = skinPixels (canvasWidth img) (canvasHeight img) data"
    and "100 \<le> length pixels"
    and "c = candidateBox (canvasWidth img) (canvasHeight img) (scaleOf img) pixels"
    and "Max (snd ` set pixels) = Min (snd ` set pixels)"
  shows "height c = Fin 0 \<and> fdiv (width c) (height c) = PInf
     \<and> detectFaceWithCanvas pf img = Inr None"
proof -
  have two: "2 \<le> length pixels" using assms(4) by simp
  from run_shape [OF assms(3) two]
  obtain s vx vy vw vh where v:
    "candidateBox (canvasWidth img) (canvasHeight img) (scaleOf img) pixels
               = \<lparr> x = Fin vx, y = Fin vy, width = Fin vw, height = Fin vh \<rparr>"
    "0 \<le> vw" "vh = 0 \<longleftrightarrow> Max (snd ` set pixels) = Min (snd ` set pixels)"
    "\<not> (vw = 0 \<and> vh = 0)"
    by auto
  have vh: "vh = 0" using v(3) assms(6) by simp
  with v(2,4) have vw: "0 < vw" by simp
  have c: "c = \<lparr> x = Fin vx, y = Fin vy, width = Fin vw, height = Fin 0 \<rparr>"
    using v(1) vh assms(5) by simp
  have ratio: "fdiv (width c) (height c) = PInf" using vw by (simp add: c signed_inf_def)
  then have "validateBox c = None"
    by (simp add: validateBox_def Let_def lit_half lit_three_halves fgt_def)
  then have "detectFaceWithCanvas pf img = Inr None"
    using canvas_run [OF assms(1,2)] assms(3,4,5) by simp
  with ratio c show ?thesis by simp
qed

theorem degenerate_row_rejected_witness:
  "fdiv (Fin 299) (Fin 0) = PInf \<and> detectFaceWithCanvas skinFallback strip = Inr None"
  using degenerate_row_rejected [OF _ strip_read refl strip_count refl strip_row,
      unfolded strip_candidate]
  by simp

text \<open>
  C8. Every box the fallback returns has \<open>width > 0\<close>, \<open>height > 0\<close>, \<open>x \<ge> 0\<close> and
  \<open>y \<ge> 0\<close>.
\<close>

theorem returned_box_positive:
  assumes "detectFaceWithCanvas pf img = Inr (Some fb)"
  shows "fgt (width fb) (Fin 0) \<and> fgt (height fb) (Fin 0)
     \<and> fge (x fb) (Fin 0) \<and> fge (y fb) (Fin 0)"
proof -
  from canvas_Some [OF assms] obtain data where d:
    "100 \<le> length (skinPixels (canvasWidth img) (canvasHeight img) data)"
    "validateBox (candidateBox (canvasWidth img) (canvasHeight img) (scaleOf img)
            (skinPixels (canvasWidth img) (canvasHeight img) data)) = Some fb"
    by auto
  have two: "2 \<le> length (skinPixels (canvasWidth img) (canvasHeight img) data)"
    using d(1) by simp
  from run_shape [OF refl two]
  obtain s vx vy vw vh where v:
    "candidateBox (canvasWidth img) (canvasHeight img) (scaleOf img)
        (skinPixels (canvasWidth img) (canvasHeight img) data)
               = \<lparr> x = Fin vx, y = Fin vy, width = Fin vw, height = Fin vh \<rparr>"
    "0 \<le> vx" "0 \<le> vy" "0 \<le> vw" "0 \<le> vh" "\<not> (vw = 0 \<and> vh = 0)"
    by auto
  have ok: "validateBox \<lparr> x = Fin vx, y = Fin vy, width = Fin vw, height = Fin vh \<rparr> = Some fb"
    using d(2) unfolding v(1) .
  then have fb: "fb = \<lparr> x = Fin vx, y = Fin vy, width = Fin vw, height = Fin vh \<rparr>"
    by (simp add: validateBox_def Let_def split: if_splits)
  have vh: "vh \<noteq> 0"
  proof
    assume z: "vh = 0"
    with v(4,6) have "0 < vw" by simp
    then have "fdiv (Fin vw) (Fin vh) = PInf" by (simp add: z signed_inf_def)
    then show False
      using ok by (simp add: validateBox_def Let_def lit_half lit_three_halves fgt_def)
  qed
  have vw: "vw \<noteq> 0"
  proof
    assume z: "vw = 0"
    have "fdiv (Fin vw) (Fin vh) = Fin 0" using vh by (simp add: z fl_zero)
    then show False
      using ok by (simp add: validateBox_def Let_def lit_half lit_three_halves fgt_def)
  qed
  show ?thesis
    using vw vh v(2-5) by (auto simp add: fb fgt_def fge_def fle_def)
qed

theorem returned_box_positive_witness:
  "detectFaceWithCanvas skinFallback portrait
     = Inr (Some \<lparr> x = Fin 0, y = Fin 0, width = Fin 149,
         height = Fin (6312076352736461 / 35184372088832) \<rparr>)
   \<and> fgt (Fin 149) (Fin 0) \<and> fgt (Fin (6312076352736461 / 35184372088832)) (Fin 0)
   \<and> fge (Fin 0) (Fin 0)"
  using returned_box_positive [OF portrait_run] portrait_run by simp

section \<open>The landmarks\<close>

text \<open>
  C3. For a box obtained by either path (the platform detector or the canvas fallback)
  \<^verbatim>\<open>detectFace\<close> resolves to the box with
  \<open>eyeLineY = ((y + height * 0.35) / naturalHeight) * 100\<close> and
  \<open>chinY = ((y + height) / naturalHeight) * 100\<close>, each operation rounded as in the
  source and nothing clamped to \<open>[0, 100]\<close>. For \<open>y = 100\<close>, \<open>height = 200\<close> and a native
  height of 1000 the two values are 17 and 30; for \<open>y = 1000\<close>, \<open>height = 500\<close> the chin
  line is 150.
\<close>

theorem landmark_formulas:
  assumes "findFaceBox pf img = Inr (Some fb)"
  shows "fst (detectFace pf img st) =
       Inr (Some \<lparr> face = Some fb,
         eyeLineY = Some (fmul (fdiv (fadd (y fb) (fmul (height fb) (lit (35 / 100))))
                            (num (unat (naturalHeight img)))) (lit 100)),
         chinY = Some (fmul (fdiv (fadd (y fb) (height fb))
                            (num (unat (naturalHeight img)))) (lit 100)) \<rparr>)
     \<and> fmul (fdiv (fadd (num 100) (fmul (num 200) (lit (35 / 100)))) (num 1000)) (lit 100)
         = num 17
     \<and> fmul (fdiv (fadd (num 100) (num 200)) (num 1000)) (lit 100) = num 30
     \<and> fmul (fdiv (fadd (num 1000) (num 500)) (num 1000)) (lit 100) = num 150"
proof -
  have "fst (detectFace pf img st) =
       Inr (Some \<lparr> face = Some fb,
         eyeLineY = Some (fmul (fdiv (fadd (y fb) (fmul (height fb) (lit (35 / 100))))
                            (num (unat (naturalHeight img)))) (lit 100)),
         chinY = Some (fmul (fdiv (fadd (y fb) (height fb))
                            (num (unat (naturalHeight img)))) (lit 100)) \<rparr>)"
    using assms by (simp add: detectFace_def Let_def eyeLineOf_def chinOf_def)
  moreover have
    "fmul (fdiv (fadd (num 100) (fmul (num 200) (lit (35 / 100)))) (num 1000)) (lit 100)
       = num 17"
    by (simp add: num_eval)
  moreover have "fmul (fdiv (fadd (num 100) (num 200)) (num 1000)) (lit 100) = num 30"
    by (simp add: num_eval)
  moreover have "fmul (fdiv (fadd (num 1000) (num 500)) (num 1000)) (lit 100) = num 150"
    by (simp add: num_eval)
  ultimately show ?thesis by (intro conjI)
qed

theorem landmark_formulas_witness:
  "fst (detectFace
     \<lparr> faceDetector =
         Some (Inr [\<lparr> x = num 50, y = num 100, width = num 150, height = num 200 \<rparr>]),
       context2d = True, getImageData = solidImageData 0 0 255 \<rparr>
     \<lparr> naturalWidth = 800, naturalHeight = 1000 \<rparr> idle)
   = Inr (Some \<lparr> face = Some \<lparr> x = num 50, y = num 100, width = num 150, height = num 200 \<rparr>,
       eyeLineY = Some (num 17), chinY = Some (num 30) \<rparr>)"
proof -
  have box: "findFaceBox
     \<lparr> faceDetector =
         Some (Inr [\<lparr> x = num 50, y = num 100, width = num 150, height = num 200 \<rparr>]),
       context2d = True, getImageData = solidImageData 0 0 255 \<rparr>
     \<lparr> naturalWidth = 800, naturalHeight = 1000 \<rparr>
     = Inr (Some \<lparr> x = num 50, y = num 100, width = num 150, height = num 200 \<rparr>)"
    by (simp add: findFaceBox_def)
  have nh: "unat (naturalHeight \<lparr> naturalWidth = 800, naturalHeight = 1000 \<rparr>) = 1000"
    by simp
  from landmark_formulas [OF box, of idle] show ?thesis
    unfolding FaceBox.select_convs nh by (elim conjE) (simp only:)
qed

text \<open>
  C10. Every result that \<^verbatim>\<open>detectFace\<close> produces through the canvas fallback has finite
  landmarks with \<open>0 \<le> eyeLineY \<le> chinY\<close>.
\<close>

theorem fallback_landmarks_ordered:
  assumes "faceDetector pf = None" "fst (detectFace pf img st) = Inr (Some res)"
  shows "\<exists>e c. eyeLineY res = Some (Fin e) \<and> chinY res = Some (Fin c) \<and> 0 \<le> e \<and> e \<le> c"
proof -
  from detectFace_Some [OF assms(2)] obtain fb where
    "findFaceBox pf img = Inr (Some fb)
     \<and> res = \<lparr> face = Some fb,
               eyeLineY = Some (eyeLineOf fb (num (unat (naturalHeight img)))),
               chinY = Some (chinOf fb (num (unat (naturalHeight img)))) \<rparr>" ..
  then have found: "findFaceBox pf img = Inr (Some fb)"
    and res: "res = \<lparr> face = Some fb,
               eyeLineY = Some (eyeLineOf fb (num (unat (naturalHeight img)))),
               chinY = Some (chinOf fb (num (unat (naturalHeight img)))) \<rparr>"
    by simp_all
  have canvas: "detectFaceWithCanvas pf img = Inr (Some fb)"
    using found assms(1) by (simp add: findFaceBox_def)
  from canvas_Some [OF canvas] obtain data where
    "context2d pf
     \<and> getImageData pf (canvasWidth img) (canvasHeight img) = Inr data
     \<and> 100 \<le> length (skinPixels (canvasWidth img) (canvasHeight img) data)
     \<and> validateBox (candidateBox (canvasWidth img) (canvasHeight img) (scaleOf img)
            (skinPixels (canvasWidth img) (canvasHeight img) data)) = Some fb" ..
  then have many: "100 \<le> length (skinPixels (canvasWidth img) (canvasHeight img) data)"
    and valid: "validateBox (candidateBox (canvasWidth img) (canvasHeight img) (scaleOf img)
            (skinPixels (canvasWidth img) (canvasHeight img) data)) = Some fb"
    by simp_all
  have fb: "fb = candidateBox (canvasWidth img) (canvasHeight img) (scaleOf img)
            (skinPixels (canvasWidth img) (canvasHeight img) data)"
    using valid by (rule validateBox_Some)
  have two: "2 \<le> length (skinPixels (canvasWidth img) (canvasHeight img) data)"
    using many by simp
  from run_shape [OF refl two]
  obtain s vx vy vw vh where v:
    "candidateBox (canvasWidth img) (canvasHeight img) (scaleOf img)
        (skinPixels (canvasWidth img) (canvasHeight img) data)
               = \<lparr> x = Fin vx, y = Fin vy, width = Fin vw, height = Fin vh \<rparr>"
    "0 \<le> vy" "vy \<le> 2 ^ 56" "0 \<le> vh" "vh \<le> 2 ^ 56" "1 \<le> unat (naturalHeight img)"
    by auto
  have "height (boxOfBounds (scaleOf img) (bounds (canvasWidth img) (canvasHeight img)
      (skinPixels (canvasWidth img) (canvasHeight img) data))) = Fin vh"
    using v(1) by (simp add: candidateBox_def)
  then have stable: "rnd vh = vh" by (rule boxOfBounds_height_rnd)
  from landmarks_ordered [OF v(2,3,4,5) stable v(6), of "Fin vx" "Fin vw"]
  obtain e c where
    "eyeLineOf \<lparr> x = Fin vx, y = Fin vy, width = Fin vw, height = Fin vh \<rparr>
        (num (unat (naturalHeight img))) = Fin e
     \<and> chinOf \<lparr> x = Fin vx, y = Fin vy, width = Fin vw, height = Fin vh \<rparr>
        (num (unat (naturalHeight img))) = Fin c
     \<and> 0 \<le> e \<and> e \<le> c"
    by (elim exE)
  then have "eyeLineY res = Some (Fin e) \<and> chinY res = Some (Fin c) \<and> 0 \<le> e \<and> e \<le> c"
    unfolding res fb v(1) by simp
  then show ?thesis by (intro exI)
qed

theorem fallback_landmarks_ordered_witness:
  "fst (detectFace skinFallback portrait idle) =
     Inr (Some \<lparr> face = Some \<lparr> x = Fin 0, y = Fin 0, width = Fin 149,
                      height = Fin (6312076352736461 / 35184372088832) \<rparr>,
       eyeLineY = Some (Fin (2945635631277015 / 140737488355328)),
       chinY = Some (Fin (4208050901824307 / 70368744177664)) \<rparr>)
   \<and> (\<exists>e c. Some (Fin (2945635631277015 / 140737488355328)) = Some (Fin e)
         \<and> Some (Fin (4208050901824307 / 70368744177664)) = Some (Fin c)
         \<and> 0 \<le> e \<and> e \<le> c)"
proof -
  have run: "fst (detectFace skinFallback portrait idle) =
     Inr (Some \<lparr> face = Some \<lparr> x = Fin 0, y = Fin 0, width = Fin 149,
                      height = Fin (6312076352736461 / 35184372088832) \<rparr>,
       eyeLineY = Some (Fin (2945635631277015 / 140737488355328)),
       chinY = Some (Fin (4208050901824307 / 70368744177664)) \<rparr>)"
    by (simp add: detectFace_def findFaceBox_def portrait_run Let_def eyeLineOf_def
        chinOf_def num_eval)
  from fallback_landmarks_ordered [OF _ run] run show ?thesis by simp
qed

section \<open>The classifier against its specification\<close>




end
